theory Spec2Isabelle
  imports Complex_Main "HOL-Library.Multiset" "HOL-Library.Monad_Syntax" "HOL-Library.Log_Nat"
begin

section \<open>Common Python notions\<close>

text \<open>
  Exceptions are values. Only the exception classes the examples raise (or could raise on
  an index out of range, on a method a class does not have, or on an \<^verbatim>\<open>int\<close> too large
  to convert to \<^verbatim>\<open>float\<close>) are listed.
\<close>

datatype py_error = ValueError string | IndexError | AttributeError string | OverflowError

text \<open>
  \<^verbatim>\<open>str(n)\<close> for a Python \<^verbatim>\<open>int\<close>, as an f-string \<^verbatim>\<open>{n}\<close> formats it: the decimal
  digits, with a leading minus sign for a negative number.
\<close>

fun str_nat :: "nat \<Rightarrow> string" where
  "str_nat n =
     (if n < 10 then [''0123456789'' ! n]
      else str_nat (n div 10) @ [''0123456789'' ! (n mod 10)])"

declare str_nat.simps [simp del]

definition str_int :: "int \<Rightarrow> string" where
  "str_int i = (if i < 0 then CHR ''-'' # str_nat (nat (- i)) else str_nat (nat i))"

text \<open>
  Amounts of money are Python \<^verbatim>\<open>float\<close>s in the source. They are modelled as exact
  rationals: a literal such as \<^verbatim>\<open>2.50\<close> is the decimal fraction it denotes, and
  \<^verbatim>\<open>+\<close>, \<^verbatim>\<open>-\<close>, \<^verbatim>\<open>*\<close>, \<^verbatim>\<open>>=\<close> are the exact operations. Binary rounding, infinities
  and NaN are outside this model.
\<close>

type_synonym amount = rat


section \<open>Strategy: sorting algorithms (src/1_strategy/2_sorting_algorithms/example.py)\<close>

text \<open>
  The three \<^verbatim>\<open>sort\<close> methods as functions from the content of the list passed to the
  content of the list returned. (Which list objects they read and write is the subject
  of the section on the store further down.)

  \<^verbatim>\<open>QuickSortStrategy.sort\<close>. The pivot index \<^verbatim>\<open>len(data) // 2\<close> is within the list
  because the list has at least two elements on that branch.
\<close>

function QuickSort_sort :: "int list \<Rightarrow> int list" where
  "QuickSort_sort data =
     (if length data \<le> 1 then data
      else (let pivot = data ! (length data div 2);
                left = filter (\<lambda>x. x < pivot) data;
                middle = filter (\<lambda>x. x = pivot) data;
                right = filter (\<lambda>x. x > pivot) data
            in QuickSort_sort left @ middle @ QuickSort_sort right))"
  by pat_completeness auto
termination
proof (relation "measure length")
  show "wf (measure length)" by simp
next
  fix data :: "int list" and pivot left middle right
  assume big: "\<not> length data \<le> 1" and p: "pivot = data ! (length data div 2)"
  have "pivot \<in> set data" using big p by simp
  then have "length (filter (\<lambda>x. x < pivot) data) < length data"
    by (auto intro!: length_filter_less)
  moreover assume "left = filter (\<lambda>x. x < pivot) data"
  ultimately show "(left, data) \<in> measure length" by simp
next
  fix data :: "int list" and pivot left middle right
  assume big: "\<not> length data \<le> 1" and p: "pivot = data ! (length data div 2)"
  have "pivot \<in> set data" using big p by simp
  then have "length (filter (\<lambda>x. x > pivot) data) < length data"
    by (auto intro!: length_filter_less)
  moreover assume "right = filter (\<lambda>x. x > pivot) data"
  ultimately show "(right, data) \<in> measure length" by simp
qed

declare QuickSort_sort.simps [simp del]

text \<open>
  \<^verbatim>\<open>MergeSortStrategy._merge\<close>: the \<^verbatim>\<open>while\<close> loop with its two indices and the result
  so far, then the two \<^verbatim>\<open>extend\<close> calls with the slices \<^verbatim>\<open>left[i:]\<close> and \<^verbatim>\<open>right[j:]\<close>.
  Both index reads are guarded by the loop condition.
\<close>

function merge_loop :: "int list \<Rightarrow> int list \<Rightarrow> nat \<Rightarrow> nat \<Rightarrow> int list \<Rightarrow> int list" where
  "merge_loop left right i j result =
     (if i < length left \<and> j < length right
      then (if left ! i \<le> right ! j
            then merge_loop left right (i + 1) j (result @ [left ! i])
            else merge_loop left right i (j + 1) (result @ [right ! j]))
      else result @ drop i left @ drop j right)"
  by pat_completeness auto
termination
  by (relation "measure (\<lambda>(left, right, i, j, result). (length left - i) + (length right - j))") auto

declare merge_loop.simps [simp del]

definition merge :: "int list \<Rightarrow> int list \<Rightarrow> int list" where
  "merge left right = merge_loop left right 0 0 []"

text \<open>\<^verbatim>\<open>MergeSortStrategy.sort\<close>, with the slices \<^verbatim>\<open>data[:mid]\<close> and \<^verbatim>\<open>data[mid:]\<close>.\<close>

function MergeSort_sort :: "int list \<Rightarrow> int list" where
  "MergeSort_sort data =
     (if length data \<le> 1 then data
      else (let mid = length data div 2;
                left = MergeSort_sort (take mid data);
                right = MergeSort_sort (drop mid data)
            in merge left right))"
  by pat_completeness auto
termination
  by (relation "measure length") auto

declare MergeSort_sort.simps [simp del]

text \<open>
  \<^verbatim>\<open>BubbleSortStrategy.sort\<close>. The inner loop \<^verbatim>\<open>for j in range(0, n - i - 1)\<close> runs
  \<open>j\<close> up to \<open>stop = n - i - 1\<close> and carries the \<^verbatim>\<open>swapped\<close> flag; reading
  \<^verbatim>\<open>arr[j + 1]\<close> beyond the end of the list would raise \<^verbatim>\<open>IndexError\<close>. The tuple
  assignment reads both elements before it writes either.
\<close>

function bubble_inner :: "int list \<Rightarrow> nat \<Rightarrow> nat \<Rightarrow> bool \<Rightarrow> py_error + (int list \<times> bool)" where
  "bubble_inner arr j stop swapped =
     (if j < stop
      then (if j + 1 < length arr
            then (if arr ! j > arr ! (j + 1)
                  then bubble_inner (arr[j := arr ! (j + 1), j + 1 := arr ! j]) (j + 1) stop True
                  else bubble_inner arr (j + 1) stop swapped)
            else Inl IndexError)
      else Inr (arr, swapped))"
  by pat_completeness auto
termination
  by (relation "measure (\<lambda>(arr, j, stop, swapped). stop - j)") auto

declare bubble_inner.simps [simp del]

text \<open>
  The outer loop \<^verbatim>\<open>for i in range(n)\<close>: one pass with \<^verbatim>\<open>swapped = False\<close> at its start,
  and \<^verbatim>\<open>break\<close> after a pass without a swap.
\<close>

function bubble_outer :: "int list \<Rightarrow> nat \<Rightarrow> nat \<Rightarrow> py_error + int list" where
  "bubble_outer arr i n =
     (if i < n
      then (case bubble_inner arr 0 (n - i - 1) False of
              Inl e \<Rightarrow> Inl e
            | Inr (arr', swapped) \<Rightarrow>
                if \<not> swapped then Inr arr' else bubble_outer arr' (i + 1) n)
      else Inr arr)"
  by pat_completeness auto
termination
  by (relation "measure (\<lambda>(arr, i, n). n - i)") auto

declare bubble_outer.simps [simp del]

definition BubbleSort_sort :: "int list \<Rightarrow> py_error + int list" where
  "BubbleSort_sort data = (let arr = data; n = length arr in bubble_outer arr 0 n)"

subsection \<open>The sorting strategies on a store of list objects\<close>

text \<open>
  The store holds the list objects: a reference is an index into it, and a list created
  by a copy, a slice, a comprehension, \<^verbatim>\<open>+\<close> or \<^verbatim>\<open>[]\<close> is a new object at the end of
  the store. The three \<^verbatim>\<open>sort\<close> methods take the store and the reference \<^verbatim>\<open>data\<close> and
  return the store they leave and the reference they return.
\<close>

type_synonym ref = nat
type_synonym store = "int list list"

definition new_list :: "store \<Rightarrow> int list \<Rightarrow> store \<times> ref" where
  "new_list h xs = (h @ [xs], length h)"

text \<open>
  \<^verbatim>\<open>QuickSortStrategy.sort\<close>: three comprehensions over \<^verbatim>\<open>data\<close>, then
  \<^verbatim>\<open>(self.sort(left) + middle) + self.sort(right)\<close> from left to right. A list of at most
  one element is returned as the object it is. The recursion passes through the store, so
  the function is defined as a partial one, and that it returns is part of what is proved.
\<close>

partial_function (option) QuickSort_sort_store :: "store \<Rightarrow> ref \<Rightarrow> (store \<times> ref) option" where
  "QuickSort_sort_store h data =
     (if length (h ! data) \<le> 1 then Some (h, data)
      else
        (let pivot = (h ! data) ! (length (h ! data) div 2);
             (h1, left) = new_list h (filter (\<lambda>x. x < pivot) (h ! data));
             (h2, middle) = new_list h1 (filter (\<lambda>x. x = pivot) (h1 ! data));
             (h3, right) = new_list h2 (filter (\<lambda>x. x > pivot) (h2 ! data))
         in do {
              (h4, sorted_left) \<leftarrow> QuickSort_sort_store h3 left;
              let (h5, left_middle) = new_list h4 (h4 ! sorted_left @ h4 ! middle);
              (h6, sorted_right) \<leftarrow> QuickSort_sort_store h5 right;
              Some (new_list h6 (h6 ! left_middle @ h6 ! sorted_right))
            }))"

text \<open>
  \<^verbatim>\<open>_merge\<close>: \<^verbatim>\<open>result.append\<close> and \<^verbatim>\<open>result.extend\<close> write the object \<^verbatim>\<open>result\<close> in
  place; the lengths of \<^verbatim>\<open>left\<close> and \<^verbatim>\<open>right\<close> are read from the store on every turn of
  the loop.
\<close>

partial_function (option) merge_loop_store ::
  "store \<Rightarrow> ref \<Rightarrow> ref \<Rightarrow> ref \<Rightarrow> nat \<Rightarrow> nat \<Rightarrow> (store \<times> nat \<times> nat) option" where
  "merge_loop_store h left right result i j =
     (if i < length (h ! left) \<and> j < length (h ! right)
      then (if (h ! left) ! i \<le> (h ! right) ! j
            then merge_loop_store (h[result := h ! result @ [(h ! left) ! i]]) left right result (i + 1) j
            else merge_loop_store (h[result := h ! result @ [(h ! right) ! j]]) left right result i (j + 1))
      else Some (h, i, j))"

definition merge_store :: "store \<Rightarrow> ref \<Rightarrow> ref \<Rightarrow> (store \<times> ref) option" where
  "merge_store h left right =
     (let (h1, result) = new_list h []
      in do {
           (h2, i, j) \<leftarrow> merge_loop_store h1 left right result 0 0;
           let (h3, left_rest) = new_list h2 (drop i (h2 ! left));
           let h4 = h3[result := h3 ! result @ h3 ! left_rest];
           let (h5, right_rest) = new_list h4 (drop j (h4 ! right));
           let h6 = h5[result := h5 ! result @ h5 ! right_rest];
           Some (h6, result)
         })"

partial_function (option) MergeSort_sort_store :: "store \<Rightarrow> ref \<Rightarrow> (store \<times> ref) option" where
  "MergeSort_sort_store h data =
     (if length (h ! data) \<le> 1 then Some (h, data)
      else
        (let mid = length (h ! data) div 2;
             (h1, left_half) = new_list h (take mid (h ! data))
         in do {
              (h2, left) \<leftarrow> MergeSort_sort_store h1 left_half;
              let (h3, right_half) = new_list h2 (drop mid (h2 ! data));
              (h4, right) \<leftarrow> MergeSort_sort_store h3 right_half;
              merge_store h4 left right
            }))"

text \<open>
  \<^verbatim>\<open>BubbleSortStrategy.sort\<close>: \<^verbatim>\<open>arr = data.copy()\<close> is a new object, and the swaps write
  \<^verbatim>\<open>arr\<close> in place.
\<close>

function bubble_inner_store ::
  "store \<Rightarrow> ref \<Rightarrow> nat \<Rightarrow> nat \<Rightarrow> bool \<Rightarrow> py_error + (store \<times> bool)" where
  "bubble_inner_store h arr j stop swapped =
     (if j < stop
      then (if j + 1 < length (h ! arr)
            then (if (h ! arr) ! j > (h ! arr) ! (j + 1)
                  then bubble_inner_store
                         (h[arr := (h ! arr)[j := (h ! arr) ! (j + 1), j + 1 := (h ! arr) ! j]])
                         arr (j + 1) stop True
                  else bubble_inner_store h arr (j + 1) stop swapped)
            else Inl IndexError)
      else Inr (h, swapped))"
  by pat_completeness auto
termination
  by (relation "measure (\<lambda>(h, arr, j, stop, swapped). stop - j)") auto

declare bubble_inner_store.simps [simp del]

function bubble_outer_store :: "store \<Rightarrow> ref \<Rightarrow> nat \<Rightarrow> nat \<Rightarrow> py_error + store" where
  "bubble_outer_store h arr i n =
     (if i < n
      then (case bubble_inner_store h arr 0 (n - i - 1) False of
              Inl e \<Rightarrow> Inl e
            | Inr (h', swapped) \<Rightarrow>
                if \<not> swapped then Inr h' else bubble_outer_store h' arr (i + 1) n)
      else Inr h)"
  by pat_completeness auto
termination
  by (relation "measure (\<lambda>(h, arr, i, n). n - i)") auto

declare bubble_outer_store.simps [simp del]

definition BubbleSort_sort_store :: "store \<Rightarrow> ref \<Rightarrow> py_error + (store \<times> ref)" where
  "BubbleSort_sort_store h data =
     (let (h1, arr) = new_list h (h ! data);
          n = length (h1 ! arr)
      in case bubble_outer_store h1 arr 0 n of
           Inl e \<Rightarrow> Inl e
         | Inr h2 \<Rightarrow> Inr (h2, arr))"

declare QuickSort_sort_store.simps [code]
declare merge_loop_store.simps [code]
declare MergeSort_sort_store.simps [code]

subsection \<open>The context \<^verbatim>\<open>DataSorter\<close>\<close>

datatype SortStrategy = QuickSortStrategy | MergeSortStrategy | BubbleSortStrategy

fun SortStrategy_sort :: "SortStrategy \<Rightarrow> int list \<Rightarrow> py_error + int list" where
  "SortStrategy_sort QuickSortStrategy data = Inr (QuickSort_sort data)"
| "SortStrategy_sort MergeSortStrategy data = Inr (MergeSort_sort data)"
| "SortStrategy_sort BubbleSortStrategy data = BubbleSort_sort data"

fun get_name :: "SortStrategy \<Rightarrow> string" where
  "get_name QuickSortStrategy = ''QuickSort''"
| "get_name MergeSortStrategy = ''MergeSort''"
| "get_name BubbleSortStrategy = ''BubbleSort''"

text \<open>
  The field \<^verbatim>\<open>_strategy\<close> is a strategy object or \<^verbatim>\<open>None\<close>. No strategy class defines
  \<^verbatim>\<open>__bool__\<close> or \<^verbatim>\<open>__len__\<close>, so \<^verbatim>\<open>not self._strategy\<close> holds for \<^verbatim>\<open>None\<close> only.
\<close>

datatype DataSorter = DataSorter (sorter_strategy: "SortStrategy option")

definition DataSorter_set_strategy :: "SortStrategy option \<Rightarrow> DataSorter \<Rightarrow> DataSorter" where
  "DataSorter_set_strategy strategy sorter = DataSorter strategy"

definition sort_data :: "DataSorter \<Rightarrow> int list \<Rightarrow> py_error + int list" where
  "sort_data sorter data =
     (case sorter_strategy sorter of
        None \<Rightarrow> Inl (ValueError ''No sorting strategy set'')
      | Some strategy \<Rightarrow> SortStrategy_sort strategy data)"

definition get_strategy_name :: "DataSorter \<Rightarrow> string" where
  "get_strategy_name sorter =
     (case sorter_strategy sorter of None \<Rightarrow> ''None'' | Some strategy \<Rightarrow> get_name strategy)"


section \<open>Strategy: payment processing (src/1_strategy/1_payment_processing/example.py)\<close>

datatype PaymentStrategy =
    CreditCardPayment string string
  | PayPalPayment string
  | CryptoPayment string string

text \<open>The values of the result dictionary, and the lines \<^verbatim>\<open>pay\<close> prints.\<close>

datatype dict_value = Str string | Num amount

datatype payment_line =
    ProcessingCreditCard amount
  | Card string
  | ProcessingPayPal amount
  | PayPalAccount string
  | ProcessingCrypto string amount
  | Wallet string string

type_synonym payment_result = "(string \<times> dict_value) list"

text \<open>
  \<^verbatim>\<open>pay\<close> returns the lines printed and the dictionary, its items in the order of the
  literal. Python's built-in \<^verbatim>\<open>hash\<close> on strings is a parameter. \<^verbatim>\<open>s[-4:]\<close> is the last
  four characters of \<open>s\<close>, or all of \<open>s\<close> when it is shorter.
\<close>

fun pay :: "(string \<Rightarrow> int) \<Rightarrow> PaymentStrategy \<Rightarrow> amount \<Rightarrow> payment_line list \<times> payment_result" where
  "pay hash (CreditCardPayment card_number cvv) amt =
     ([ProcessingCreditCard amt, Card (drop (length card_number - 4) card_number)],
      [(''status'', Str ''success''), (''method'', Str ''credit_card''), (''amount'', Num amt),
       (''transaction_id'', Str (''CC-'' @ str_int (hash card_number mod 10000)))])"
| "pay hash (PayPalPayment email) amt =
     ([ProcessingPayPal amt, PayPalAccount email],
      [(''status'', Str ''success''), (''method'', Str ''paypal''), (''amount'', Num amt),
       (''transaction_id'', Str (''PP-'' @ str_int (hash email mod 10000)))])"
| "pay hash (CryptoPayment wallet_address currency) amt =
     ([ProcessingCrypto currency amt,
       Wallet (take 10 wallet_address) (drop (length wallet_address - 10) wallet_address)],
      [(''status'', Str ''success''), (''method'', Str ''crypto''), (''currency'', Str currency),
       (''amount'', Num amt),
       (''transaction_id'', Str (''CRYPTO-'' @ str_int (hash wallet_address mod 10000)))])"

datatype PaymentProcessor = PaymentProcessor (strategy: "PaymentStrategy option")

definition set_strategy :: "PaymentStrategy option \<Rightarrow> PaymentProcessor \<Rightarrow> PaymentProcessor" where
  "set_strategy new_strategy processor = PaymentProcessor new_strategy"

text \<open>
  \<^verbatim>\<open>process_payment\<close> yields the lines printed and either the exception raised or the
  dictionary returned.
\<close>

definition process_payment ::
  "(string \<Rightarrow> int) \<Rightarrow> PaymentProcessor \<Rightarrow> amount \<Rightarrow> payment_line list \<times> (py_error + payment_result)" where
  "process_payment hash processor amt =
     (case strategy processor of
        None \<Rightarrow> ([], Inl (ValueError ''No payment strategy set''))
      | Some s \<Rightarrow> (fst (pay hash s amt), Inr (snd (pay hash s amt))))"


section \<open>Decorator: coffee shop (src/2_decorator/1_coffee_shop/example.py)\<close>

text \<open>
  A beverage is \<^verbatim>\<open>Espresso()\<close> or a decorator object holding the one beverage it wraps;
  \<^verbatim>\<open>SugarDecorator\<close> also holds its \<^verbatim>\<open>teaspoons\<close> argument, a Python \<^verbatim>\<open>int\<close>.
\<close>

datatype Beverage =
    Espresso
  | MilkDecorator Beverage
  | SugarDecorator Beverage int
  | WhipDecorator Beverage
  | CaramelDecorator Beverage



subsection \<open>The cost in binary floating point\<close>

text \<open>
  \<^verbatim>\<open>get_cost\<close> above reads the prices as exact decimal amounts. What CPython computes is
  IEEE 754 binary64 arithmetic: every literal, every conversion of an \<^verbatim>\<open>int\<close> and every
  \<^verbatim>\<open>+\<close> and \<^verbatim>\<open>*\<close> is rounded to the nearest double, ties to the even significand.
  \<open>round_binary64\<close> is that rounding on the rationals, before the test for overflow:
  53 significant bits at the exponent of the value, and the fixed spacing
  \<open>2 powi - 1074\<close> in the subnormal range.
\<close>

definition round_half_even :: "rat \<Rightarrow> int" where
  "round_half_even q =
     (let f = \<lfloor>q\<rfloor>; r = q - of_int f
      in if r < 1 / 2 then f else if r > 1 / 2 then f + 1 else if even f then f else f + 1)"

text \<open>The exponent \<open>e\<close> of a positive rational: \<open>2 powi e \<le> a < 2 powi (e + 1)\<close>.\<close>

definition exponent :: "rat \<Rightarrow> int" where
  "exponent a =
     (let (n, d) = quotient_of a; e0 = bitlen n - bitlen d
      in if 2 powi e0 \<le> a then e0 else e0 - 1)"

definition ulp :: "rat \<Rightarrow> rat" where
  "ulp a = 2 powi (max (exponent a) (- 1022) - 52)"

definition round_binary64 :: "rat \<Rightarrow> rat" where
  "round_binary64 x =
     (if x = 0 then 0
      else sgn x * of_int (round_half_even (\<bar>x\<bar> / ulp \<bar>x\<bar>)) * ulp \<bar>x\<bar>)"

text \<open>
  A Python \<^verbatim>\<open>float\<close>: a finite double (as the rational it is), an infinity or NaN. The
  two zeros are one value here; they compare equal and add alike. A result of magnitude
  \<open>2 ^ 1024\<close> or more after rounding is an infinity; converting an \<^verbatim>\<open>int\<close> that
  large raises \<^verbatim>\<open>OverflowError\<close> instead.
\<close>

datatype pyfloat = Fin rat | PosInf | NegInf | NaN

definition to_float :: "rat \<Rightarrow> pyfloat" where
  "to_float x =
     (let r = round_binary64 x
      in if r \<ge> 2 ^ 1024 then PosInf else if r \<le> - (2 ^ 1024) then NegInf else Fin r)"

definition float_of_int :: "int \<Rightarrow> py_error + pyfloat" where
  "float_of_int i =
     (let r = round_binary64 (of_int i)
      in if \<bar>r\<bar> \<ge> 2 ^ 1024 then Inl OverflowError else Inr (Fin r))"

fun float_add :: "pyfloat \<Rightarrow> pyfloat \<Rightarrow> pyfloat" where
  "float_add (Fin x) (Fin y) = to_float (x + y)"
| "float_add NaN y = NaN"
| "float_add x NaN = NaN"
| "float_add PosInf NegInf = NaN"
| "float_add NegInf PosInf = NaN"
| "float_add PosInf y = PosInf"
| "float_add NegInf y = NegInf"
| "float_add (Fin x) y = y"

fun float_mul :: "pyfloat \<Rightarrow> pyfloat \<Rightarrow> pyfloat" where
  "float_mul (Fin x) (Fin y) = to_float (x * y)"
| "float_mul NaN y = NaN"
| "float_mul x NaN = NaN"
| "float_mul PosInf PosInf = PosInf"
| "float_mul PosInf NegInf = NegInf"
| "float_mul NegInf PosInf = NegInf"
| "float_mul NegInf NegInf = PosInf"
| "float_mul PosInf (Fin y) = (if y = 0 then NaN else if y > 0 then PosInf else NegInf)"
| "float_mul NegInf (Fin y) = (if y = 0 then NaN else if y > 0 then NegInf else PosInf)"
| "float_mul (Fin x) PosInf = (if x = 0 then NaN else if x > 0 then PosInf else NegInf)"
| "float_mul (Fin x) NegInf = (if x = 0 then NaN else if x > 0 then NegInf else PosInf)"

text \<open>
  \<^verbatim>\<open>get_cost\<close> on floats. In \<^verbatim>\<open>SugarDecorator\<close> the wrapped cost is computed first, then
  \<^verbatim>\<open>0.10 * self._teaspoons\<close> with the \<^verbatim>\<open>int\<close> converted to a float.
\<close>

fun get_cost_float :: "Beverage \<Rightarrow> py_error + pyfloat" where
  "get_cost_float Espresso = Inr (to_float 2.50)"
| "get_cost_float (MilkDecorator beverage) =
     (case get_cost_float beverage of
        Inl e \<Rightarrow> Inl e
      | Inr cost \<Rightarrow> Inr (float_add cost (to_float 0.50)))"
| "get_cost_float (SugarDecorator beverage teaspoons) =
     (case get_cost_float beverage of
        Inl e \<Rightarrow> Inl e
      | Inr cost \<Rightarrow>
          (case float_of_int teaspoons of
             Inl e \<Rightarrow> Inl e
           | Inr t \<Rightarrow> Inr (float_add cost (float_mul (to_float 0.10) t))))"
| "get_cost_float (WhipDecorator beverage) =
     (case get_cost_float beverage of
        Inl e \<Rightarrow> Inl e
      | Inr cost \<Rightarrow> Inr (float_add cost (to_float 0.75)))"
| "get_cost_float (CaramelDecorator beverage) =
     (case get_cost_float beverage of
        Inl e \<Rightarrow> Inl e
      | Inr cost \<Rightarrow> Inr (float_add cost (to_float 0.60)))"


section \<open>Composite: file system (src/7_composite/1_file_system/example.py)\<close>

text \<open>
  A \<^verbatim>\<open>File\<close> holds its name and size, a \<^verbatim>\<open>Folder\<close> its name and the ordered list of its
  children. The trees are finite and without sharing, as the example builds them.
\<close>

datatype FileSystemItem =
    File string int
  | Folder string "FileSystemItem list"

text \<open>
  \<^verbatim>\<open>Folder.get_size\<close> is the loop \<^verbatim>\<open>total = 0; for child in self._children: total += child.get_size()\<close>,
  a left fold over the children.
\<close>

fun get_size :: "FileSystemItem \<Rightarrow> int" where
  "get_size (File name sz) = sz"
| "get_size (Folder name children) =
     foldl (\<lambda>total child. total + get_size child) 0 children"

text \<open>
  \<^verbatim>\<open>add\<close> exists on \<^verbatim>\<open>Folder\<close> only; on a \<^verbatim>\<open>File\<close> the call raises. (\<^verbatim>\<open>Folder.remove\<close>
  finds the child by object identity, which these values do not carry; it is not
  modelled.)
\<close>

fun add :: "FileSystemItem \<Rightarrow> FileSystemItem \<Rightarrow> py_error + FileSystemItem" where
  "add (Folder name children) item = Inr (Folder name (children @ [item]))"
| "add (File name sz) item = Inl (AttributeError ''add'')"

text \<open>The sizes of all \<^verbatim>\<open>File\<close> leaves below an item, left to right.\<close>

fun file_sizes :: "FileSystemItem \<Rightarrow> int list" where
  "file_sizes (File name sz) = [sz]"
| "file_sizes (Folder name children) = concat (map file_sizes children)"


section \<open>Observer: stock market (src/3_observer/1_stock_market/example.py)\<close>

text \<open>
  An observer is an object of one of the four observer classes. The number is the
  object's identity: none of the classes defines \<^verbatim>\<open>__eq__\<close>, so \<^verbatim>\<open>in\<close> and
  \<^verbatim>\<open>list.remove\<close> compare observers by identity.
\<close>

datatype Observer = Trader nat | Analyst nat | MobileApp nat | EmailNotifier nat

fun class_name :: "Observer \<Rightarrow> string" where
  "class_name (Trader i) = ''Trader''"
| "class_name (Analyst i) = ''Analyst''"
| "class_name (MobileApp i) = ''MobileApp''"
| "class_name (EmailNotifier i) = ''EmailNotifier''"

text \<open>
  What the subject does to the outside, in order: the lines it prints and the calls
  \<^verbatim>\<open>observer.update(symbol, price, change)\<close> it makes. What an observer does inside
  \<^verbatim>\<open>update\<close> is not part of the subject and is not modelled.
\<close>

datatype stock_event =
    Subscribed string string
  | Unsubscribed string string
  | PriceChanged string amount amount
  | Update Observer string amount amount

record StockPrice =
  symbol :: string
  price :: amount
  previous_price :: amount
  observers :: "Observer list"
  events :: "stock_event list"

definition StockPrice_init :: "string \<Rightarrow> amount \<Rightarrow> StockPrice" where
  "StockPrice_init stock_symbol initial_price =
     \<lparr>symbol = stock_symbol, price = initial_price, previous_price = initial_price,
      observers = [], events = []\<rparr>"

definition attach :: "Observer \<Rightarrow> StockPrice \<Rightarrow> StockPrice" where
  "attach observer s =
     (if observer \<notin> set (observers s)
      then s\<lparr>observers := observers s @ [observer],
             events := events s @ [Subscribed (class_name observer) (symbol s)]\<rparr>
      else s)"

definition detach :: "Observer \<Rightarrow> StockPrice \<Rightarrow> StockPrice" where
  "detach observer s =
     (if observer \<in> set (observers s)
      then s\<lparr>observers := remove1 observer (observers s),
             events := events s @ [Unsubscribed (class_name observer) (symbol s)]\<rparr>
      else s)"

definition notify :: "StockPrice \<Rightarrow> StockPrice" where
  "notify s =
     (let change = price s - previous_price s
      in s\<lparr>events := events s @
               map (\<lambda>observer. Update observer (symbol s) (price s) change) (observers s)\<rparr>)"

definition set_price :: "amount \<Rightarrow> StockPrice \<Rightarrow> StockPrice" where
  "set_price new_price s =
     (if new_price \<noteq> price s
      then (let s1 = s\<lparr>previous_price := price s\<rparr>;
                s2 = s1\<lparr>price := new_price\<rparr>;
                s3 = s2\<lparr>events := events s2 @
                        [PriceChanged (symbol s2) (previous_price s2) (price s2)]\<rparr>
            in notify s3)
      else s)"

text \<open>
  The calls a client can make on a subject, and a run of them from the constructor.
\<close>

datatype subject_call = Attach Observer | Detach Observer | SetPrice amount | Notify

fun call :: "StockPrice \<Rightarrow> subject_call \<Rightarrow> StockPrice" where
  "call s (Attach observer) = attach observer s"
| "call s (Detach observer) = detach observer s"
| "call s (SetPrice new_price) = set_price new_price s"
| "call s Notify = notify s"

definition after_calls :: "string \<Rightarrow> amount \<Rightarrow> subject_call list \<Rightarrow> StockPrice" where
  "after_calls stock_symbol initial_price calls = foldl call (StockPrice_init stock_symbol initial_price) calls"

text \<open>
  The \<^verbatim>\<open>update\<close> calls that a step from \<open>s\<close> to \<open>s'\<close> added to the event
  sequence: the observers called, in the order of the calls.
\<close>

fun receivers :: "stock_event list \<Rightarrow> Observer list" where
  "receivers [] = []"
| "receivers (Update observer stock_symbol p change # es) = observer # receivers es"
| "receivers (e # es) = receivers es"

definition delivered :: "StockPrice \<Rightarrow> StockPrice \<Rightarrow> Observer list" where
  "delivered s s' = receivers (drop (length (events s)) (events s'))"


section \<open>Adapter: media player (src/4_adapter/1_media_player/example.py)\<close>

text \<open>
  \<^verbatim>\<open>str.lower()\<close> on the letters A to Z; every other character is left as it is. (On
  characters outside ASCII Python's \<^verbatim>\<open>lower\<close> does more; none of them becomes one of the
  letters compared with here.)
\<close>

definition lower_char :: "char \<Rightarrow> char" where
  "lower_char c =
     (case map_of (zip ''ABCDEFGHIJKLMNOPQRSTUVWXYZ'' ''abcdefghijklmnopqrstuvwxyz'') c of
        None \<Rightarrow> c
      | Some l \<Rightarrow> l)"

definition lower :: "string \<Rightarrow> string" where
  "lower s = map lower_char s"

text \<open>
  A call of \<^verbatim>\<open>play\<close> yields the lines the adaptees printed (one per playback) and either
  the returned string or the exception raised.
\<close>

datatype playback = PlayingMp3 string | PlayingMp4 string | PlayingVlc string

type_synonym play_result = "playback list \<times> (py_error + string)"

definition play_mp3 :: "string \<Rightarrow> play_result" where
  "play_mp3 file_name = ([PlayingMp3 file_name], Inr (''MP3: '' @ file_name))"

definition play_mp4 :: "string \<Rightarrow> play_result" where
  "play_mp4 file_name = ([PlayingMp4 file_name], Inr (''MP4: '' @ file_name))"

definition play_vlc :: "string \<Rightarrow> play_result" where
  "play_vlc file_name = ([PlayingVlc file_name], Inr (''VLC: '' @ file_name))"

definition Mp3Adapter_play :: "string \<Rightarrow> string \<Rightarrow> play_result" where
  "Mp3Adapter_play audio_type file_name =
     (if lower audio_type = ''mp3'' then play_mp3 file_name
      else ([], Inl (ValueError (''MP3 adapter cannot play '' @ audio_type @ '' files''))))"

definition Mp4Adapter_play :: "string \<Rightarrow> string \<Rightarrow> play_result" where
  "Mp4Adapter_play audio_type file_name =
     (if lower audio_type = ''mp4'' then play_mp4 file_name
      else ([], Inl (ValueError (''MP4 adapter cannot play '' @ audio_type @ '' files''))))"

definition VlcAdapter_play :: "string \<Rightarrow> string \<Rightarrow> play_result" where
  "VlcAdapter_play audio_type file_name =
     (if lower audio_type = ''vlc'' then play_vlc file_name
      else ([], Inl (ValueError (''VLC adapter cannot play '' @ audio_type @ '' files''))))"

definition AudioPlayer_play :: "string \<Rightarrow> string \<Rightarrow> play_result" where
  "AudioPlayer_play audio_type file_name =
     (let audio_type_lower = lower audio_type
      in if audio_type_lower = ''mp3'' then Mp3Adapter_play audio_type file_name
         else if audio_type_lower = ''mp4'' then Mp4Adapter_play audio_type file_name
         else if audio_type_lower = ''vlc'' then VlcAdapter_play audio_type file_name
         else ([], Inl (ValueError (''Invalid media type: '' @ audio_type))))"


section \<open>State: vending machine (src/6_state/1_vending_machine/example.py)\<close>

datatype VendingState = NoMoneyState | HasMoneyState | SoldState | SoldOutState

text \<open>
  One constructor per \<^verbatim>\<open>print\<close> of the state classes, carrying the values the line
  formats.
\<close>

datatype vending_line =
    Inserted amount
  | NoMoneyToEject
  | InsertMoneyFirst
  | InsertedAdditional amount
  | Ejecting amount
  | NotAvailable string
  | Selected string amount
  | InsufficientFunds amount
  | SelectProductFirst
  | PleaseWait
  | CannotEject
  | Dispensing "string option"
  | ReturningChange amount
  | OutOfStock "string option"
  | MachineOutOfProducts

text \<open>An entry of \<^verbatim>\<open>_products\<close>: the dictionary with the keys "price" and "stock".\<close>

record product_info =
  info_price :: amount
  info_stock :: int

text \<open>
  The machine's fields, and the lines printed so far. \<^verbatim>\<open>_selected_product\<close> is a string
  or \<^verbatim>\<open>None\<close>.
\<close>

record VendingMachine =
  state :: VendingState
  money :: amount
  selected_product :: "string option"
  products :: "string \<rightharpoonup> product_info"
  console :: "vending_line list"

definition VendingMachine_init :: VendingMachine where
  "VendingMachine_init =
     \<lparr>state = NoMoneyState, money = 0.0, selected_product = None,
      products = [''Coke'' \<mapsto> \<lparr>info_price = 1.50, info_stock = 5\<rparr>,
                  ''Pepsi'' \<mapsto> \<lparr>info_price = 1.50, info_stock = 3\<rparr>,
                  ''Chips'' \<mapsto> \<lparr>info_price = 2.00, info_stock = 4\<rparr>,
                  ''Candy'' \<mapsto> \<lparr>info_price = 1.00, info_stock = 0\<rparr>],
      console = []\<rparr>"

definition print :: "vending_line \<Rightarrow> VendingMachine \<Rightarrow> VendingMachine" where
  "print line m = m\<lparr>console := console m @ [line]\<rparr>"

definition set_state :: "VendingState \<Rightarrow> VendingMachine \<Rightarrow> VendingMachine" where
  "set_state st m = m\<lparr>state := st\<rparr>"

definition add_money :: "amount \<Rightarrow> VendingMachine \<Rightarrow> VendingMachine" where
  "add_money amt m = m\<lparr>money := money m + amt\<rparr>"

definition set_money :: "amount \<Rightarrow> VendingMachine \<Rightarrow> VendingMachine" where
  "set_money amt m = m\<lparr>money := amt\<rparr>"

definition set_selected_product :: "string option \<Rightarrow> VendingMachine \<Rightarrow> VendingMachine" where
  "set_selected_product product m = m\<lparr>selected_product := product\<rparr>"

text \<open>
  The three product queries take what the caller passes: a string, or \<^verbatim>\<open>None\<close> when
  \<^verbatim>\<open>dispense\<close> passes an unset selection (\<^verbatim>\<open>None in self._products\<close> is false).
\<close>

definition get_product_price :: "VendingMachine \<Rightarrow> string option \<Rightarrow> amount option" where
  "get_product_price m product =
     (case product of
        None \<Rightarrow> None
      | Some p \<Rightarrow> (case products m p of None \<Rightarrow> None | Some info \<Rightarrow> Some (info_price info)))"

definition has_product :: "VendingMachine \<Rightarrow> string option \<Rightarrow> bool" where
  "has_product m product =
     (case product of
        None \<Rightarrow> False
      | Some p \<Rightarrow> (case products m p of None \<Rightarrow> False | Some info \<Rightarrow> info_stock info > 0))"

definition remove_product :: "string option \<Rightarrow> VendingMachine \<Rightarrow> VendingMachine" where
  "remove_product product m =
     (case product of
        None \<Rightarrow> m
      | Some p \<Rightarrow>
          (case products m p of
             None \<Rightarrow> m
           | Some info \<Rightarrow> m\<lparr>products := (products m)(p \<mapsto> info\<lparr>info_stock := info_stock info - 1\<rparr>)\<rparr>))"

subsection \<open>The state classes\<close>

definition NoMoney_insert_money :: "amount \<Rightarrow> VendingMachine \<Rightarrow> VendingMachine" where
  "NoMoney_insert_money amt m = set_state HasMoneyState (add_money amt (print (Inserted amt) m))"

definition NoMoney_eject_money :: "VendingMachine \<Rightarrow> VendingMachine" where
  "NoMoney_eject_money m = print NoMoneyToEject m"

definition NoMoney_select_product :: "string \<Rightarrow> VendingMachine \<Rightarrow> VendingMachine" where
  "NoMoney_select_product product m = print InsertMoneyFirst m"

definition NoMoney_dispense :: "VendingMachine \<Rightarrow> VendingMachine" where
  "NoMoney_dispense m = print InsertMoneyFirst m"

definition HasMoney_insert_money :: "amount \<Rightarrow> VendingMachine \<Rightarrow> VendingMachine" where
  "HasMoney_insert_money amt m = add_money amt (print (InsertedAdditional amt) m)"

definition HasMoney_eject_money :: "VendingMachine \<Rightarrow> VendingMachine" where
  "HasMoney_eject_money m =
     set_state NoMoneyState (set_money 0 (print (Ejecting (money m)) m))"

definition HasMoney_select_product :: "string \<Rightarrow> VendingMachine \<Rightarrow> VendingMachine" where
  "HasMoney_select_product product m =
     (case get_product_price m (Some product) of
        None \<Rightarrow> print (NotAvailable product) m
      | Some product_price \<Rightarrow>
          if money m \<ge> product_price
          then set_state SoldState
                 (set_selected_product (Some product) (print (Selected product product_price) m))
          else (let needed = product_price - money m in print (InsufficientFunds needed) m))"

definition HasMoney_dispense :: "VendingMachine \<Rightarrow> VendingMachine" where
  "HasMoney_dispense m = print SelectProductFirst m"

definition Sold_insert_money :: "amount \<Rightarrow> VendingMachine \<Rightarrow> VendingMachine" where
  "Sold_insert_money amt m = print PleaseWait m"

definition Sold_eject_money :: "VendingMachine \<Rightarrow> VendingMachine" where
  "Sold_eject_money m = print CannotEject m"

definition Sold_select_product :: "string \<Rightarrow> VendingMachine \<Rightarrow> VendingMachine" where
  "Sold_select_product product m = print PleaseWait m"

text \<open>
  In the branch where \<^verbatim>\<open>has_product\<close> holds the product is a key of \<^verbatim>\<open>_products\<close>, so
  its price is not \<^verbatim>\<open>None\<close> (lemma \<open>has_product_price\<close> below) and
  \<^verbatim>\<open>change = money - price\<close> is computed; the \<open>None\<close> case of the price in that
  branch is never taken.
\<close>

definition Sold_dispense :: "VendingMachine \<Rightarrow> VendingMachine" where
  "Sold_dispense m =
     (let product = selected_product m;
          product_price = get_product_price m product;
          inserted = money m
      in if has_product m product
         then (case product_price of
                 Some pr \<Rightarrow>
                   (let m1 = remove_product product (print (Dispensing product) m);
                        change = inserted - pr;
                        m2 = (if change > 0 then print (ReturningChange change) m1 else m1)
                    in set_state NoMoneyState (set_selected_product None (set_money 0 m2)))
               | None \<Rightarrow> remove_product product (print (Dispensing product) m))
         else set_state NoMoneyState (print (OutOfStock product) m))"

definition SoldOut_insert_money :: "amount \<Rightarrow> VendingMachine \<Rightarrow> VendingMachine" where
  "SoldOut_insert_money amt m = print MachineOutOfProducts m"

definition SoldOut_eject_money :: "VendingMachine \<Rightarrow> VendingMachine" where
  "SoldOut_eject_money m =
     set_state NoMoneyState
       (if money m > 0 then set_money 0 (print (Ejecting (money m)) m) else m)"

definition SoldOut_select_product :: "string \<Rightarrow> VendingMachine \<Rightarrow> VendingMachine" where
  "SoldOut_select_product product m = print MachineOutOfProducts m"

definition SoldOut_dispense :: "VendingMachine \<Rightarrow> VendingMachine" where
  "SoldOut_dispense m = print MachineOutOfProducts m"

subsection \<open>The context: each call goes to the current state object\<close>

definition insert_money :: "amount \<Rightarrow> VendingMachine \<Rightarrow> VendingMachine" where
  "insert_money amt m =
     (case state m of
        NoMoneyState \<Rightarrow> NoMoney_insert_money amt m
      | HasMoneyState \<Rightarrow> HasMoney_insert_money amt m
      | SoldState \<Rightarrow> Sold_insert_money amt m
      | SoldOutState \<Rightarrow> SoldOut_insert_money amt m)"

definition eject_money :: "VendingMachine \<Rightarrow> VendingMachine" where
  "eject_money m =
     (case state m of
        NoMoneyState \<Rightarrow> NoMoney_eject_money m
      | HasMoneyState \<Rightarrow> HasMoney_eject_money m
      | SoldState \<Rightarrow> Sold_eject_money m
      | SoldOutState \<Rightarrow> SoldOut_eject_money m)"

definition select_product :: "string \<Rightarrow> VendingMachine \<Rightarrow> VendingMachine" where
  "select_product product m =
     (case state m of
        NoMoneyState \<Rightarrow> NoMoney_select_product product m
      | HasMoneyState \<Rightarrow> HasMoney_select_product product m
      | SoldState \<Rightarrow> Sold_select_product product m
      | SoldOutState \<Rightarrow> SoldOut_select_product product m)"

definition dispense :: "VendingMachine \<Rightarrow> VendingMachine" where
  "dispense m =
     (case state m of
        NoMoneyState \<Rightarrow> NoMoney_dispense m
      | HasMoneyState \<Rightarrow> HasMoney_dispense m
      | SoldState \<Rightarrow> Sold_dispense m
      | SoldOutState \<Rightarrow> SoldOut_dispense m)"


section \<open>Theorems\<close>

subsection \<open>Strategy: sorting\<close>

lemma mset_three_way:
  "mset (filter (\<lambda>x. x < p) xs) + (mset (filter (\<lambda>x. x = p) xs) + mset (filter (\<lambda>x. x > p) xs)) = mset (xs :: int list)"
  by (induction xs) auto

lemma mset_QuickSort: "mset (QuickSort_sort data) = mset data"
proof (induction data rule: QuickSort_sort.induct)
  case (1 data)
  show ?case
  proof (cases "length data \<le> 1")
    case True
    then show ?thesis by (simp add: QuickSort_sort.simps)
  next
    case False
    then show ?thesis
      using "1.IH" [OF False refl refl refl refl] mset_three_way [of "data ! (length data div 2)" data]
      by (subst QuickSort_sort.simps) (simp add: Let_def)
  qed
qed

lemma set_QuickSort: "set (QuickSort_sort data) = set data"
  using mset_QuickSort [of data] by (metis set_mset_mset)

lemma sorted_all_equal: "\<forall>x\<in>set xs. x = (p::int) \<Longrightarrow> sorted xs"
  by (induction xs) auto

lemma QuickSort_sort_unfold:
  "\<not> length data \<le> 1 \<Longrightarrow>
     QuickSort_sort data =
       QuickSort_sort (filter (\<lambda>x. x < data ! (length data div 2)) data)
       @ filter (\<lambda>x. x = data ! (length data div 2)) data
       @ QuickSort_sort (filter (\<lambda>x. x > data ! (length data div 2)) data)"
  by (subst QuickSort_sort.simps) (simp add: Let_def)

lemma sorted_QuickSort: "sorted (QuickSort_sort data)"
proof (induction data rule: QuickSort_sort.induct)
  case (1 data)
  show ?case
  proof (cases "length data \<le> 1")
    case True
    then have "QuickSort_sort data = data" by (simp add: QuickSort_sort.simps)
    moreover have "sorted data" using True by (cases data) simp_all
    ultimately show ?thesis by simp
  next
    case False
    define p where "p = data ! (length data div 2)"
    have L: "sorted (QuickSort_sort (filter (\<lambda>x. x < p) data))"
      and R: "sorted (QuickSort_sort (filter (\<lambda>x. x > p) data))"
      using "1.IH" [OF False refl refl refl refl] by (simp_all add: p_def)
    have M: "sorted (filter (\<lambda>x. x = p) data)"
      by (rule sorted_all_equal [of _ p]) simp
    have "sorted (QuickSort_sort (filter (\<lambda>x. x < p) data)
       @ filter (\<lambda>x. x = p) data @ QuickSort_sort (filter (\<lambda>x. x > p) data))"
      using L R M by (auto simp: sorted_append set_QuickSort)
    then show ?thesis
      unfolding QuickSort_sort_unfold [OF False] p_def .
  qed
qed


lemma merge_loop_done:
  "\<not> (i < length left \<and> j < length right) \<Longrightarrow>
     merge_loop left right i j result = result @ drop i left @ drop j right"
  by (subst merge_loop.simps) auto

lemma mset_merge_loop:
  "mset (merge_loop left right i j result)
     = mset result + mset (drop i left) + mset (drop j right)"
proof (induction left right i j result rule: merge_loop.induct)
  case (1 left right i j result)
  show ?case
  proof (cases "i < length left \<and> j < length right")
    case False
    then show ?thesis by (simp add: merge_loop_done)
  next
    case True
    then have dl: "drop i left = left ! i # drop (Suc i) left"
      and dr: "drop j right = right ! j # drop (Suc j) right"
      by (simp_all add: Cons_nth_drop_Suc)
    show ?thesis
    proof (cases "left ! i \<le> right ! j")
      case le: True
      have "merge_loop left right i j result = merge_loop left right (i + 1) j (result @ [left ! i])"
        using True le by (subst merge_loop.simps) simp
      then show ?thesis using "1.IH"(1) [OF True le] dl by simp
    next
      case gt: False
      have "merge_loop left right i j result = merge_loop left right i (j + 1) (result @ [right ! j])"
        using True gt by (subst merge_loop.simps) simp
      then show ?thesis using "1.IH"(2) [OF True gt] dr by simp
    qed
  qed
qed

lemma sorted_merge_loop:
  "sorted result \<Longrightarrow> sorted (drop i left) \<Longrightarrow> sorted (drop j right) \<Longrightarrow>
   (\<forall>x\<in>set result. \<forall>y\<in>set (drop i left) \<union> set (drop j right). x \<le> y) \<Longrightarrow>
   sorted (merge_loop left right i j result)"
proof (induction left right i j result rule: merge_loop.induct)
  case (1 left right i j result)
  show ?case
  proof (cases "i < length left \<and> j < length right")
    case False
    then have "drop i left = [] \<or> drop j right = []" by auto
    then show ?thesis
      using "1.prems" by (auto simp: merge_loop_done [OF False] sorted_append)
  next
    case True
    then have dl: "drop i left = left ! i # drop (Suc i) left"
      and dr: "drop j right = right ! j # drop (Suc j) right"
      by (simp_all add: Cons_nth_drop_Suc)
    show ?thesis
    proof (cases "left ! i \<le> right ! j")
      case le: True
      have eq: "merge_loop left right i j result = merge_loop left right (i + 1) j (result @ [left ! i])"
        using True le by (subst merge_loop.simps) simp
      have "sorted (merge_loop left right (i + 1) j (result @ [left ! i]))"
      proof (rule "1.IH"(1) [OF True le])
        show "sorted (result @ [left ! i])"
          using "1.prems"(1,4) dl by (auto simp: sorted_append)
        show "sorted (drop (i + 1) left)" using "1.prems"(2) dl by simp
        show "sorted (drop j right)" by (rule "1.prems"(3))
        show "\<forall>x\<in>set (result @ [left ! i]). \<forall>y\<in>set (drop (i + 1) left) \<union> set (drop j right). x \<le> y"
          using "1.prems"(2,3,4) dl dr le by (auto simp: Ball_def) 
      qed
      then show ?thesis using eq by simp
    next
      case gt: False
      have eq: "merge_loop left right i j result = merge_loop left right i (j + 1) (result @ [right ! j])"
        using True gt by (subst merge_loop.simps) simp
      have "sorted (merge_loop left right i (j + 1) (result @ [right ! j]))"
      proof (rule "1.IH"(2) [OF True gt])
        show "sorted (result @ [right ! j])"
          using "1.prems"(1,4) dr by (auto simp: sorted_append)
        show "sorted (drop i left)" by (rule "1.prems"(2))
        show "sorted (drop (j + 1) right)" using "1.prems"(3) dr by simp
        show "\<forall>x\<in>set (result @ [right ! j]). \<forall>y\<in>set (drop i left) \<union> set (drop (j + 1) right). x \<le> y"
          using "1.prems"(2,3,4) dl dr gt by (auto simp: Ball_def)
      qed
      then show ?thesis using eq by simp
    qed
  qed
qed

lemma mset_merge: "mset (merge left right) = mset left + mset right"
  by (simp add: merge_def mset_merge_loop)

lemma sorted_merge: "sorted left \<Longrightarrow> sorted right \<Longrightarrow> sorted (merge left right)"
  unfolding merge_def by (rule sorted_merge_loop) simp_all

lemma MergeSort_sort_unfold:
  "\<not> length data \<le> 1 \<Longrightarrow>
     MergeSort_sort data =
       merge (MergeSort_sort (take (length data div 2) data))
             (MergeSort_sort (drop (length data div 2) data))"
  by (subst MergeSort_sort.simps) (simp add: Let_def)

lemma mset_MergeSort: "mset (MergeSort_sort data) = mset data"
proof (induction data rule: MergeSort_sort.induct)
  case (1 data)
  show ?case
  proof (cases "length data \<le> 1")
    case True
    then show ?thesis by (simp add: MergeSort_sort.simps)
  next
    case False
    have "mset (take (length data div 2) data) + mset (drop (length data div 2) data) = mset data"
      by (metis append_take_drop_id mset_append)
    then show ?thesis
      using "1.IH"(1) [OF False refl] "1.IH"(2) [OF False refl refl]
      by (simp add: MergeSort_sort_unfold [OF False] mset_merge)
  qed
qed

lemma sorted_MergeSort: "sorted (MergeSort_sort data)"
proof (induction data rule: MergeSort_sort.induct)
  case (1 data)
  show ?case
  proof (cases "length data \<le> 1")
    case True
    then have "MergeSort_sort data = data" by (simp add: MergeSort_sort.simps)
    moreover have "sorted data" using True by (cases data) simp_all
    ultimately show ?thesis by simp
  next
    case False
    show ?thesis
      unfolding MergeSort_sort_unfold [OF False]
      using "1.IH"(1) [OF False refl] "1.IH"(2) [OF False refl refl]
      by (rule sorted_merge)
  qed
qed


lemma bubble_inner_done:
  "\<not> j < stop \<Longrightarrow> bubble_inner arr j stop swapped = Inr (arr, swapped)"
  by (subst bubble_inner.simps) simp

lemma bubble_inner_swap:
  "j < stop \<Longrightarrow> j + 1 < length arr \<Longrightarrow> arr ! j > arr ! (j + 1) \<Longrightarrow>
     bubble_inner arr j stop swapped
       = bubble_inner (arr[j := arr ! (j + 1), j + 1 := arr ! j]) (j + 1) stop True"
  by (subst bubble_inner.simps) simp

lemma bubble_inner_keep:
  "j < stop \<Longrightarrow> j + 1 < length arr \<Longrightarrow> \<not> arr ! j > arr ! (j + 1) \<Longrightarrow>
     bubble_inner arr j stop swapped = bubble_inner arr (j + 1) stop swapped"
  by (subst bubble_inner.simps) simp

lemma bubble_inner_correct:
  "stop < length arr \<Longrightarrow> j \<le> stop \<Longrightarrow> \<forall>k<j. arr ! k \<le> arr ! j \<Longrightarrow>
   \<exists>arr' swapped'.
     bubble_inner arr j stop swapped = Inr (arr', swapped') \<and>
     length arr' = length arr \<and> mset arr' = mset arr \<and>
     drop (Suc stop) arr' = drop (Suc stop) arr \<and>
     (\<forall>k<stop. arr' ! k \<le> arr' ! stop) \<and>
     (\<not> swapped' \<longrightarrow>
        \<not> swapped \<and> arr' = arr \<and> (\<forall>k. j \<le> k \<and> k < stop \<longrightarrow> arr ! k \<le> arr ! Suc k))"
proof (induction arr j stop swapped rule: bubble_inner.induct)
  case (1 arr j stop swapped)
  show ?case
  proof (cases "j < stop")
    case False
    with "1.prems" have "j = stop" by simp
    then show ?thesis
      using "1.prems"(3) by (simp add: bubble_inner_done)
  next
    case True
    with "1.prems"(1) have inr: "j + 1 < length arr" by simp
    show ?thesis
    proof (cases "arr ! j > arr ! (j + 1)")
      case gt: True
      define arr2 where "arr2 = arr[j := arr ! (j + 1), j + 1 := arr ! j]"
      have len2: "length arr2 = length arr" by (simp add: arr2_def)
      have mset2: "mset arr2 = mset arr"
        unfolding arr2_def using inr by (simp add: mset_swap)
      have drop2: "drop (Suc stop) arr2 = drop (Suc stop) arr"
        unfolding arr2_def using True by simp
      have pre2: "\<forall>k<j + 1. arr2 ! k \<le> arr2 ! (j + 1)"
      proof (intro allI impI)
        fix k assume "k < j + 1"
        then consider "k < j" | "k = j" by linarith
        then show "arr2 ! k \<le> arr2 ! (j + 1)"
        proof cases
          case 1
          then show ?thesis
            using "1.prems"(3) inr unfolding arr2_def by simp
        next
          case 2
          then show ?thesis
            using gt inr unfolding arr2_def by simp
        qed
      qed
      from "1.IH"(1) [OF True inr gt, folded arr2_def, of] len2 "1.prems"(1) True pre2
      obtain arr' swapped' where
        r: "bubble_inner arr2 (j + 1) stop True = Inr (arr', swapped')"
        and p: "length arr' = length arr2" "mset arr' = mset arr2"
          "drop (Suc stop) arr' = drop (Suc stop) arr2" "\<forall>k<stop. arr' ! k \<le> arr' ! stop"
        and ns: "\<not> swapped' \<longrightarrow> \<not> True \<and> arr' = arr2 \<and> (\<forall>k. j + 1 \<le> k \<and> k < stop \<longrightarrow> arr2 ! k \<le> arr2 ! Suc k)"
        by force
      have "bubble_inner arr j stop swapped = Inr (arr', swapped')"
        using bubble_inner_swap [OF True inr gt] r by (simp add: arr2_def)
      moreover have "swapped'" using ns by blast
      ultimately show ?thesis
        using p len2 mset2 drop2 by auto
    next
      case le: False
      have pre2: "\<forall>k<j + 1. arr ! k \<le> arr ! (j + 1)"
      proof (intro allI impI)
        fix k assume "k < j + 1"
        then consider "k < j" | "k = j" by linarith
        then show "arr ! k \<le> arr ! (j + 1)"
        proof cases
          case 1
          then have "arr ! k \<le> arr ! j" using "1.prems"(3) by simp
          then show ?thesis using le by simp
        next
          case 2
          then show ?thesis using le by simp
        qed
      qed
      from "1.IH"(2) [OF True inr le] "1.prems"(1) True pre2
      obtain arr' swapped' where
        r: "bubble_inner arr (j + 1) stop swapped = Inr (arr', swapped')"
        and p: "length arr' = length arr" "mset arr' = mset arr"
          "drop (Suc stop) arr' = drop (Suc stop) arr" "\<forall>k<stop. arr' ! k \<le> arr' ! stop"
        and ns: "\<not> swapped' \<longrightarrow> \<not> swapped \<and> arr' = arr \<and> (\<forall>k. j + 1 \<le> k \<and> k < stop \<longrightarrow> arr ! k \<le> arr ! Suc k)"
        by force
      have res: "bubble_inner arr j stop swapped = Inr (arr', swapped')"
        using bubble_inner_keep [OF True inr le] r by simp
      have "\<forall>k. j \<le> k \<and> k < stop \<longrightarrow> arr ! k \<le> arr ! Suc k" if "\<not> swapped'"
      proof (intro allI impI)
        fix k assume k: "j \<le> k \<and> k < stop"
        show "arr ! k \<le> arr ! Suc k"
        proof (cases "k = j")
          case True
          then show ?thesis using le by simp
        next
          case False
          then have "j + 1 \<le> k \<and> k < stop" using k by simp
          then show ?thesis using ns that by blast
        qed
      qed
      then show ?thesis
        using res p ns by blast
    qed
  qed
qed


lemma bubble_outer_done: "\<not> i < n \<Longrightarrow> bubble_outer arr i n = Inr arr"
  by (subst bubble_outer.simps) simp

lemma bubble_outer_pass:
  "i < n \<Longrightarrow> bubble_inner arr 0 (n - i - 1) False = Inr (arr', swapped) \<Longrightarrow>
     bubble_outer arr i n = (if \<not> swapped then Inr arr' else bubble_outer arr' (i + 1) n)"
  by (subst bubble_outer.simps) simp

lemma mset_take_eq:
  assumes "mset xs = mset ys" and "drop m xs = drop m ys"
  shows "mset (take m xs) = mset (take m ys)"
proof -
  have "mset (take m xs) + mset (drop m xs) = mset (take m ys) + mset (drop m ys)"
    using assms(1) by (metis append_take_drop_id mset_append)
  then show ?thesis using assms(2) by simp
qed

lemma sorted_take_adjacent:
  fixes arr :: "int list"
  assumes "m \<le> length arr" and "\<forall>k. Suc k < m \<longrightarrow> arr ! k \<le> arr ! Suc k"
  shows "sorted (take m arr)"
  using assms by (simp add: sorted_iff_nth_Suc)

lemma bubble_outer_correct:
  "length arr = n \<Longrightarrow> i \<le> n \<Longrightarrow> sorted (drop (n - i) arr) \<Longrightarrow>
   (\<forall>x\<in>set (take (n - i) arr). \<forall>y\<in>set (drop (n - i) arr). x \<le> y) \<Longrightarrow>
   \<exists>res. bubble_outer arr i n = Inr res \<and> sorted res \<and> mset res = mset arr"
proof (induction arr i n rule: bubble_outer.induct)
  case (1 arr i n)
  show ?case
  proof (cases "i < n")
    case False
    with "1.prems"(2) have "i = n" by simp
    then show ?thesis using "1.prems"(3) by (simp add: bubble_outer_done)
  next
    case True
    define stop where "stop = n - i - 1"
    have stop: "stop < length arr" "Suc stop = n - i"
      using True "1.prems"(1) by (simp_all add: stop_def)
    from bubble_inner_correct [of stop arr 0 False] stop(1)
    obtain arr' swapped where
      r: "bubble_inner arr 0 stop False = Inr (arr', swapped)"
      and len: "length arr' = length arr" and ms: "mset arr' = mset arr"
      and dr: "drop (Suc stop) arr' = drop (Suc stop) arr"
      and mx: "\<forall>k<stop. arr' ! k \<le> arr' ! stop"
      and ns: "\<not> swapped \<longrightarrow> arr' = arr \<and> (\<forall>k. 0 \<le> k \<and> k < stop \<longrightarrow> arr ! k \<le> arr ! Suc k)"
      by auto
    have step: "bubble_outer arr i n = (if \<not> swapped then Inr arr' else bubble_outer arr' (i + 1) n)"
      using bubble_outer_pass [OF True] r by (simp add: stop_def)
    show ?thesis
    proof (cases swapped)
      case False
      then have same: "arr' = arr" and adj: "\<forall>k. Suc k < Suc stop \<longrightarrow> arr ! k \<le> arr ! Suc k"
        using ns by simp_all
      have "sorted (take (Suc stop) arr)"
        using stop(1) adj by (intro sorted_take_adjacent) simp_all
      then have "sorted arr"
        using "1.prems"(3,4) stop(2) sorted_append [of "take (n - i) arr" "drop (n - i) arr"]
        by simp
      then show ?thesis using step False same by simp
    next
      case sw: True
      have tk: "mset (take (Suc stop) arr') = mset (take (Suc stop) arr)"
        using ms dr by (rule mset_take_eq)
      then have tkset: "set (take (Suc stop) arr') = set (take (Suc stop) arr)"
        by (metis set_mset_mset)
      have stop': "stop < length arr'" using stop(1) len by simp
      have dstop: "drop stop arr' = arr' ! stop # drop (Suc stop) arr"
        using Cons_nth_drop_Suc [OF stop'] dr by simp
      have top_in: "arr' ! stop \<in> set (take (Suc stop) arr')"
        using stop' by (simp add: take_Suc_conv_app_nth)
      have low: "\<forall>y\<in>set (drop (Suc stop) arr). arr' ! stop \<le> y"
        using "1.prems"(4) top_in tkset stop(2) by simp
      have s1: "sorted (drop (n - (i + 1)) arr')"
        using "1.prems"(3) low dstop stop(2) by (simp add: stop_def)
      have s2: "\<forall>x\<in>set (take (n - (i + 1)) arr'). \<forall>y\<in>set (drop (n - (i + 1)) arr'). x \<le> y"
      proof (intro ballI)
        fix x y
        assume x: "x \<in> set (take (n - (i + 1)) arr')" and y: "y \<in> set (drop (n - (i + 1)) arr')"
        have n1: "n - (i + 1) = stop" by (simp add: stop_def)
        from x obtain k where k: "k < stop" "x = arr' ! k"
          unfolding n1 using stop' by (auto simp: in_set_conv_nth)
        have xin: "x \<in> set (take (Suc stop) arr)"
          using x tkset stop' unfolding n1 by (metis le_add2 plus_1_eq_Suc set_take_subset_set_take subsetD)
        from y have "y = arr' ! stop \<or> y \<in> set (drop (Suc stop) arr)"
          unfolding n1 dstop by simp
        then show "x \<le> y"
        proof
          assume "y = arr' ! stop"
          then show ?thesis using mx k by simp
        next
          assume "y \<in> set (drop (Suc stop) arr)"
          then show ?thesis using "1.prems"(4) xin stop(2) by simp
        qed
      qed
      from "1.IH" [OF True r [unfolded stop_def] refl] sw
      have "\<exists>res. bubble_outer arr' (i + 1) n = Inr res \<and> sorted res \<and> mset res = mset arr'"
        using len "1.prems"(1) True s1 s2 by simp
      then show ?thesis using step sw ms by simp
    qed
  qed
qed

lemma BubbleSort_sort_correct:
  "\<exists>res. BubbleSort_sort data = Inr res \<and> sorted res \<and> mset res = mset data"
  using bubble_outer_correct [of data "length data" 0]
  by (simp add: BubbleSort_sort_def Let_def)

text \<open>
  C1. For every list of integers each of the three \<^verbatim>\<open>sort\<close> methods returns a list (the
  bubble sort never reads outside its list) that is in non-descending order, is a
  permutation of the input and has the length of the input.
\<close>

theorem sorting_strategies_correct:
  "(sorted (QuickSort_sort data) \<and> mset (QuickSort_sort data) = mset data \<and>
      length (QuickSort_sort data) = length data) \<and>
   (sorted (MergeSort_sort data) \<and> mset (MergeSort_sort data) = mset data \<and>
      length (MergeSort_sort data) = length data) \<and>
   (\<exists>res. BubbleSort_sort data = Inr res \<and>
      sorted res \<and> mset res = mset data \<and> length res = length data)"
proof (intro conjI)
  show "sorted (QuickSort_sort data)" by (rule sorted_QuickSort)
  show "mset (QuickSort_sort data) = mset data" by (rule mset_QuickSort)
  show "length (QuickSort_sort data) = length data"
    using mset_QuickSort [of data] by (rule mset_eq_length)
  show "sorted (MergeSort_sort data)" by (rule sorted_MergeSort)
  show "mset (MergeSort_sort data) = mset data" by (rule mset_MergeSort)
  show "length (MergeSort_sort data) = length data"
    using mset_MergeSort [of data] by (rule mset_eq_length)
  obtain res where res: "BubbleSort_sort data = Inr res" "sorted res" "mset res = mset data"
    using BubbleSort_sort_correct [of data] by blast
  from res(3) have "length res = length data" by (rule mset_eq_length)
  with res show "\<exists>res. BubbleSort_sort data = Inr res \<and>
      sorted res \<and> mset res = mset data \<and> length res = length data"
    by blast
qed

text \<open>The list of the example's own run, sorted by each strategy.\<close>

lemma QuickSort_example_run:
  "QuickSort_sort [64, 34, 25, 12, 22, 11, 90, 5, 77, 50]
     = [5, 11, 12, 22, 25, 34, 50, 64, 77, 90]"
  by code_simp

lemma MergeSort_example_run:
  "MergeSort_sort [64, 34, 25, 12, 22, 11, 90, 5, 77, 50]
     = [5, 11, 12, 22, 25, 34, 50, 64, 77, 90]"
  by code_simp

lemma BubbleSort_example_run:
  "BubbleSort_sort [64, 34, 25, 12, 22, 11, 90, 5, 77, 50]
     = Inr [5, 11, 12, 22, 25, 34, 50, 64, 77, 90]"
  by code_simp

subsection \<open>Strategy: sorting on the store\<close>

lemma QuickSort_sort_store_small:
  "length (h ! data) \<le> 1 \<Longrightarrow> QuickSort_sort_store h data = Some (h, data)"
  by (subst QuickSort_sort_store.simps) simp

lemma QuickSort_sort_store_unfold:
  assumes "\<not> length (h ! data) \<le> 1" and "data < length h"
    and "pivot = (h ! data) ! (length (h ! data) div 2)"
  shows "QuickSort_sort_store h data =
     do {
       (h4, sorted_left) \<leftarrow>
          QuickSort_sort_store
            (h @ [filter (\<lambda>x. x < pivot) (h ! data), filter (\<lambda>x. x = pivot) (h ! data),
                  filter (\<lambda>x. x > pivot) (h ! data)])
            (length h);
       (h6, sorted_right) \<leftarrow>
          QuickSort_sort_store (h4 @ [h4 ! sorted_left @ h4 ! (length h + 1)]) (length h + 2);
       Some (h6 @ [h6 ! length h4 @ h6 ! sorted_right], length h6)
     }"
  using assms
  by (subst QuickSort_sort_store.simps) (simp add: Let_def new_list_def nth_append)

lemma QuickSort_sort_store_correct:
  "h ! data = xs \<Longrightarrow> data < length h \<Longrightarrow>
   \<exists>ext r. QuickSort_sort_store h data = Some (h @ ext, r) \<and> r < length (h @ ext) \<and>
     (h @ ext) ! r = QuickSort_sort xs"
proof (induction xs arbitrary: h data rule: QuickSort_sort.induct)
  case (1 xs)
  show ?case
  proof (cases "length xs \<le> 1")
    case True
    then have "QuickSort_sort_store h data = Some (h @ [], data)"
      using "1.prems" by (simp add: QuickSort_sort_store_small)
    moreover have "QuickSort_sort xs = xs" using True by (simp add: QuickSort_sort.simps)
    ultimately show ?thesis using "1.prems" by force
  next
    case False
    define pivot where "pivot = xs ! (length xs div 2)"
    define l m r where "l = filter (\<lambda>x. x < pivot) xs" and "m = filter (\<lambda>x. x = pivot) xs"
      and "r = filter (\<lambda>x. x > pivot) xs"
    define h3 where "h3 = h @ [l, m, r]"
    have "h3 ! length h = l" "length h < length h3" by (simp_all add: h3_def)
    from "1.IH"(1) [OF False pivot_def l_def m_def r_def this]
    obtain ext4 sl where
      c1: "QuickSort_sort_store h3 (length h) = Some (h3 @ ext4, sl)"
      and sl: "sl < length (h3 @ ext4)" "(h3 @ ext4) ! sl = QuickSort_sort l"
      by blast
    define h4 where "h4 = h3 @ ext4"
    define h5 where "h5 = h4 @ [h4 ! sl @ h4 ! (length h + 1)]"
    have m4: "h4 ! (length h + 1) = m" by (simp add: h4_def h3_def nth_append)
    have "h5 ! (length h + 2) = r" "length h + 2 < length h5"
      by (simp_all add: h5_def h4_def h3_def nth_append)
    from "1.IH"(2) [OF False pivot_def l_def m_def r_def this]
    obtain ext6 sr where
      c2: "QuickSort_sort_store h5 (length h + 2) = Some (h5 @ ext6, sr)"
      and sr: "sr < length (h5 @ ext6)" "(h5 @ ext6) ! sr = QuickSort_sort r"
      by blast
    define h6 where "h6 = h5 @ ext6"
    have lm: "h6 ! length h4 = QuickSort_sort l @ m"
      using sl(2) m4 by (simp add: h6_def h5_def nth_append h4_def)
    have "QuickSort_sort_store h data = Some (h6 @ [h6 ! length h4 @ h6 ! sr], length h6)"
      using QuickSort_sort_store_unfold [of h data pivot] False "1.prems" c1 c2
      by (simp add: pivot_def h3_def l_def m_def r_def h4_def h5_def h6_def)
    moreover have "h6 @ [h6 ! length h4 @ h6 ! sr] = h @ ([l, m, r] @ ext4 @ [h4 ! sl @ h4 ! (length h + 1)] @ ext6 @ [h6 ! length h4 @ h6 ! sr])"
      by (simp add: h6_def h5_def h4_def h3_def)
    moreover have "h6 ! length h4 @ h6 ! sr = QuickSort_sort xs"
      using lm sr(2) QuickSort_sort_unfold [OF False]
      by (simp add: h6_def l_def m_def r_def pivot_def)
    ultimately show ?thesis
      by (metis length_append_singleton lessI nth_append_length)
  qed
qed

lemma merge_loop_store_done:
  "\<not> (i < length (h ! left) \<and> j < length (h ! right)) \<Longrightarrow>
     merge_loop_store h left right result i j = Some (h, i, j)"
  by (subst merge_loop_store.simps) auto

lemma merge_loop_store_left:
  "i < length (h ! left) \<Longrightarrow> j < length (h ! right) \<Longrightarrow> (h ! left) ! i \<le> (h ! right) ! j \<Longrightarrow>
     merge_loop_store h left right result i j
       = merge_loop_store (h[result := h ! result @ [(h ! left) ! i]]) left right result (i + 1) j"
  by (subst merge_loop_store.simps) simp

lemma merge_loop_store_right:
  "i < length (h ! left) \<Longrightarrow> j < length (h ! right) \<Longrightarrow> \<not> (h ! left) ! i \<le> (h ! right) ! j \<Longrightarrow>
     merge_loop_store h left right result i j
       = merge_loop_store (h[result := h ! result @ [(h ! right) ! j]]) left right result i (j + 1)"
  by (subst merge_loop_store.simps) simp

lemma merge_loop_left:
  "i < length left \<Longrightarrow> j < length right \<Longrightarrow> left ! i \<le> right ! j \<Longrightarrow>
     merge_loop left right i j result = merge_loop left right (i + 1) j (result @ [left ! i])"
  by (subst merge_loop.simps) simp

lemma merge_loop_right:
  "i < length left \<Longrightarrow> j < length right \<Longrightarrow> \<not> left ! i \<le> right ! j \<Longrightarrow>
     merge_loop left right i j result = merge_loop left right i (j + 1) (result @ [right ! j])"
  by (subst merge_loop.simps) simp

lemma merge_loop_store_correct:
  "h ! left = L \<Longrightarrow> h ! right = R \<Longrightarrow> h ! result = res \<Longrightarrow>
   result < length h \<Longrightarrow> result \<noteq> left \<Longrightarrow> result \<noteq> right \<Longrightarrow>
   \<exists>res' i' j'. merge_loop_store h left right result i j = Some (h[result := res'], i', j') \<and>
      res' @ drop i' L @ drop j' R = merge_loop L R i j res"
proof (induction L R i j res arbitrary: h rule: merge_loop.induct)
  case (1 L R i j res)
  show ?case
  proof (cases "i < length L \<and> j < length R")
    case False
    have "h[result := res] = h" using "1.prems"(3) by (metis list_update_id)
    with False have "merge_loop_store h left right result i j = Some (h[result := res], i, j)"
      using "1.prems"(1,2) by (simp add: merge_loop_store_done)
    then show ?thesis using False by (auto simp: merge_loop_done)
  next
    case True
    show ?thesis
    proof (cases "L ! i \<le> R ! j")
      case le: True
      define h' where "h' = h[result := res @ [L ! i]]"
      have "h' ! left = L" "h' ! right = R" "h' ! result = res @ [L ! i]" "result < length h'"
        using "1.prems" by (simp_all add: h'_def)
      from "1.IH"(1) [OF True le this "1.prems"(5,6)]
      obtain res' i' j' where
        "merge_loop_store h' left right result (i + 1) j = Some (h'[result := res'], i', j')"
        "res' @ drop i' L @ drop j' R = merge_loop L R (i + 1) j (res @ [L ! i])"
        by blast
      moreover have "merge_loop_store h left right result i j
          = merge_loop_store h' left right result (i + 1) j"
        using merge_loop_store_left [of i h left j right result] True le "1.prems"
        by (simp add: h'_def)
      moreover have "h'[result := res'] = h[result := res']" by (simp add: h'_def)
      ultimately show ?thesis
        using merge_loop_left [of i L j R res] True le by auto
    next
      case gt: False
      define h' where "h' = h[result := res @ [R ! j]]"
      have "h' ! left = L" "h' ! right = R" "h' ! result = res @ [R ! j]" "result < length h'"
        using "1.prems" by (simp_all add: h'_def)
      from "1.IH"(2) [OF True gt this "1.prems"(5,6)]
      obtain res' i' j' where
        "merge_loop_store h' left right result i (j + 1) = Some (h'[result := res'], i', j')"
        "res' @ drop i' L @ drop j' R = merge_loop L R i (j + 1) (res @ [R ! j])"
        by blast
      moreover have "merge_loop_store h left right result i j
          = merge_loop_store h' left right result i (j + 1)"
        using merge_loop_store_right [of i h left j right result] True gt "1.prems"
        by (simp add: h'_def)
      moreover have "h'[result := res'] = h[result := res']" by (simp add: h'_def)
      ultimately show ?thesis
        using merge_loop_right [of i L j R res] True gt by auto
    qed
  qed
qed

lemma merge_store_correct:
  assumes "left < length h" and "right < length h"
  shows "\<exists>ext. merge_store h left right = Some (h @ ext, length h) \<and> ext \<noteq> [] \<and>
           (h @ ext) ! length h = merge (h ! left) (h ! right)"
proof -
  define h1 where "h1 = h @ [[]]"
  have "h1 ! left = h ! left" "h1 ! right = h ! right" "h1 ! length h = []"
    "length h < length h1" "length h \<noteq> left" "length h \<noteq> right"
    using assms by (simp_all add: h1_def nth_append)
  from merge_loop_store_correct [OF this, of 0 0]
  obtain res' i' j' where
    loop: "merge_loop_store h1 left right (length h) 0 0 = Some (h1[length h := res'], i', j')"
    and res: "res' @ drop i' (h ! left) @ drop j' (h ! right) = merge (h ! left) (h ! right)"
    by (auto simp: merge_def)
  have h2: "h1[length h := res'] = h @ [res']" by (simp add: h1_def)
  have "merge_store h left right
      = Some (h @ [res' @ drop i' (h ! left) @ drop j' (h ! right), drop i' (h ! left),
                   drop j' (h ! right)], length h)"
    using assms loop [unfolded h2, folded h1_def]
    by (simp add: merge_store_def new_list_def h1_def nth_append list_update_append)
  then show ?thesis using res by auto
qed

lemma MergeSort_sort_store_small:
  "length (h ! data) \<le> 1 \<Longrightarrow> MergeSort_sort_store h data = Some (h, data)"
  by (subst MergeSort_sort_store.simps) simp

lemma MergeSort_sort_store_unfold:
  assumes "\<not> length (h ! data) \<le> 1" and "data < length h"
  shows "MergeSort_sort_store h data =
     do {
       (h2, left) \<leftarrow>
          MergeSort_sort_store (h @ [take (length (h ! data) div 2) (h ! data)]) (length h);
       (h4, right) \<leftarrow>
          MergeSort_sort_store (h2 @ [drop (length (h ! data) div 2) (h2 ! data)]) (length h2);
       merge_store h4 left right
     }"
  using assms
  by (subst MergeSort_sort_store.simps) (simp add: Let_def new_list_def nth_append)

lemma MergeSort_sort_store_correct:
  "h ! data = xs \<Longrightarrow> data < length h \<Longrightarrow>
   \<exists>ext r. MergeSort_sort_store h data = Some (h @ ext, r) \<and> r < length (h @ ext) \<and>
     (h @ ext) ! r = MergeSort_sort xs"
proof (induction xs arbitrary: h data rule: MergeSort_sort.induct)
  case (1 xs)
  show ?case
  proof (cases "length xs \<le> 1")
    case True
    then have "MergeSort_sort_store h data = Some (h @ [], data)"
      using "1.prems" by (simp add: MergeSort_sort_store_small)
    moreover have "MergeSort_sort xs = xs" using True by (simp add: MergeSort_sort.simps)
    ultimately show ?thesis using "1.prems" by force
  next
    case False
    define mid where "mid = length xs div 2"
    define h1 where "h1 = h @ [take mid xs]"
    have "h1 ! length h = take mid xs" "length h < length h1" by (simp_all add: h1_def)
    from "1.IH"(1) [OF False mid_def this]
    obtain ext2 left where
      c1: "MergeSort_sort_store h1 (length h) = Some (h1 @ ext2, left)"
      and left: "left < length (h1 @ ext2)" "(h1 @ ext2) ! left = MergeSort_sort (take mid xs)"
      by blast
    define h2 where "h2 = h1 @ ext2"
    have d2: "h2 ! data = xs" using "1.prems" by (simp add: h2_def h1_def nth_append)
    define h3 where "h3 = h2 @ [drop mid xs]"
    have "h3 ! length h2 = drop mid xs" "length h2 < length h3" by (simp_all add: h3_def)
    from "1.IH"(2) [OF False mid_def refl this]
    obtain ext4 right where
      c2: "MergeSort_sort_store h3 (length h2) = Some (h3 @ ext4, right)"
      and right: "right < length (h3 @ ext4)" "(h3 @ ext4) ! right = MergeSort_sort (drop mid xs)"
      by blast
    define h4 where "h4 = h3 @ ext4"
    have left2: "left < length h2" "h2 ! left = MergeSort_sort (take mid xs)"
      using left by (simp_all add: h2_def)
    have left4: "left < length h4" "h4 ! left = MergeSort_sort (take mid xs)"
      using left2 by (simp_all add: h4_def h3_def nth_append)
    from merge_store_correct [OF left4(1) right(1) [folded h4_def]]
    obtain ext5 where
      c3: "merge_store h4 left right = Some (h4 @ ext5, length h4)"
      and ne: "ext5 \<noteq> []"
      and m: "(h4 @ ext5) ! length h4 = merge (h4 ! left) (h4 ! right)"
      by blast
    have "MergeSort_sort_store h data = Some (h4 @ ext5, length h4)"
      using MergeSort_sort_store_unfold [of h data] False "1.prems" c1 c2 c3 d2
      by (simp add: mid_def h1_def h2_def h3_def h4_def)
    moreover have "h4 @ ext5 = h @ ([take mid xs] @ ext2 @ [drop mid xs] @ ext4 @ ext5)"
      by (simp add: h4_def h3_def h2_def h1_def)
    moreover have "(h4 @ ext5) ! length h4 = MergeSort_sort xs"
      using m left4(2) right(2) MergeSort_sort_unfold [OF False]
      by (simp add: h4_def mid_def)
    moreover have "length h4 < length (h4 @ ext5)"
      using ne by simp
    ultimately show ?thesis by metis
  qed
qed

lemma bubble_inner_store_refines:
  "h ! arr = xs \<Longrightarrow> arr < length h \<Longrightarrow>
   bubble_inner_store h arr j stop swapped =
     (case bubble_inner xs j stop swapped of
        Inl e \<Rightarrow> Inl e
      | Inr (xs', swapped') \<Rightarrow> Inr (h[arr := xs'], swapped'))"
proof (induction xs j stop swapped arbitrary: h rule: bubble_inner.induct)
  case (1 xs j stop swapped)
  show ?case
  proof (cases "j < stop")
    case False
    have "h[arr := xs] = h" using "1.prems"(1) by (metis list_update_id)
    then show ?thesis
      using False by (simp add: bubble_inner_done bubble_inner_store.simps [of h])
  next
    case True
    show ?thesis
    proof (cases "j + 1 < length xs")
      case False
      then show ?thesis
        using True "1.prems"
        by (simp add: bubble_inner.simps [of xs] bubble_inner_store.simps [of h])
    next
      case inr: True
      show ?thesis
      proof (cases "xs ! j > xs ! (j + 1)")
        case gt: True
        define xs2 where "xs2 = xs[j := xs ! (j + 1), j + 1 := xs ! j]"
        have "h[arr := xs2] ! arr = xs2" "arr < length (h[arr := xs2])"
          using "1.prems"(2) by simp_all
        from "1.IH"(1) [OF True inr gt this [unfolded xs2_def]]
        have "bubble_inner_store (h[arr := xs2]) arr (j + 1) stop True =
            (case bubble_inner xs2 (j + 1) stop True of
               Inl e \<Rightarrow> Inl e
             | Inr (xs', swapped') \<Rightarrow> Inr (h[arr := xs'], swapped'))"
          by (simp add: xs2_def cong: sum.case_cong prod.case_cong)
        moreover have "bubble_inner_store h arr j stop swapped
            = bubble_inner_store (h[arr := xs2]) arr (j + 1) stop True"
          using True inr gt "1.prems"(1)
          by (subst bubble_inner_store.simps) (simp add: xs2_def)
        ultimately show ?thesis
          using bubble_inner_swap [OF True inr gt] by (simp add: xs2_def)
      next
        case le: False
        have "bubble_inner_store h arr j stop swapped
            = bubble_inner_store h arr (j + 1) stop swapped"
          using True inr le "1.prems"(1)
          by (subst bubble_inner_store.simps) simp
        then show ?thesis
          using "1.IH"(2) [OF True inr le "1.prems"] bubble_inner_keep [OF True inr le]
          by simp
      qed
    qed
  qed
qed

lemma bubble_outer_store_refines:
  "h ! arr = xs \<Longrightarrow> arr < length h \<Longrightarrow>
   bubble_outer_store h arr i n =
     (case bubble_outer xs i n of Inl e \<Rightarrow> Inl e | Inr xs' \<Rightarrow> Inr (h[arr := xs']))"
proof (induction xs i n arbitrary: h rule: bubble_outer.induct)
  case (1 xs i n)
  have id: "h[arr := xs] = h" using "1.prems"(1) by (metis list_update_id)
  show ?case
  proof (cases "i < n")
    case False
    then show ?thesis
      using id by (simp add: bubble_outer_done bubble_outer_store.simps [of h])
  next
    case True
    note inner = bubble_inner_store_refines [OF "1.prems", of 0 "n - i - 1" False]
    show ?thesis
    proof (cases "bubble_inner xs 0 (n - i - 1) False")
      case (Inl e)
      then show ?thesis
        using True inner
        by (simp add: bubble_outer.simps [of xs] bubble_outer_store.simps [of h])
    next
      case (Inr p)
      obtain xs' swapped where p: "p = (xs', swapped)" by (cases p)
      show ?thesis
      proof (cases swapped)
        case False
        then show ?thesis
          using True inner Inr p
          by (simp add: bubble_outer.simps [of xs] bubble_outer_store.simps [of h])
      next
        case sw: True
        have "h[arr := xs'] ! arr = xs'" "arr < length (h[arr := xs'])"
          using "1.prems"(2) by simp_all
        from "1.IH" [OF True Inr [unfolded p] refl _ this] sw
        have "bubble_outer_store (h[arr := xs']) arr (i + 1) n =
            (case bubble_outer xs' (i + 1) n of
               Inl e \<Rightarrow> Inl e | Inr xs'' \<Rightarrow> Inr (h[arr := xs'']))"
          by (simp cong: sum.case_cong)
        then show ?thesis
          using True inner Inr p sw
          by (simp add: bubble_outer.simps [of xs] bubble_outer_store.simps [of h])
      qed
    qed
  qed
qed

lemma BubbleSort_sort_store_refines:
  "data < length h \<Longrightarrow>
   BubbleSort_sort_store h data =
     (case BubbleSort_sort (h ! data) of
        Inl e \<Rightarrow> Inl e
      | Inr res \<Rightarrow> Inr (h @ [res], length h))"
  using bubble_outer_store_refines [of "h @ [h ! data]" "length h" "h ! data" 0 "length (h ! data)"]
  by (simp add: BubbleSort_sort_store_def BubbleSort_sort_def new_list_def Let_def
      split: sum.splits)

text \<open>
  C10. Let \<^verbatim>\<open>data\<close> be a list object of the store. Each of the three \<^verbatim>\<open>sort\<close> methods
  returns, and leaves every list object that existed before the call as it was, the
  caller's \<^verbatim>\<open>data\<close> among them; the object it returns holds the sorted content. The
  bubble sort returns the new object made by \<^verbatim>\<open>data.copy()\<close>. (Quicksort and merge sort
  return \<^verbatim>\<open>data\<close> itself, unchanged, when it has at most one element, and a new object
  otherwise.)
\<close>

theorem sorting_leaves_input_unchanged:
  assumes "data < length h"
  shows "(\<exists>h' r. QuickSort_sort_store h data = Some (h', r) \<and>
            take (length h) h' = h \<and> h' ! data = h ! data \<and>
            r < length h' \<and> h' ! r = QuickSort_sort (h ! data)) \<and>
         (\<exists>h' r. MergeSort_sort_store h data = Some (h', r) \<and>
            take (length h) h' = h \<and> h' ! data = h ! data \<and>
            r < length h' \<and> h' ! r = MergeSort_sort (h ! data)) \<and>
         (\<exists>h' r. BubbleSort_sort_store h data = Inr (h', r) \<and>
            take (length h) h' = h \<and> h' ! data = h ! data \<and>
            r = length h \<and> r < length h' \<and> BubbleSort_sort (h ! data) = Inr (h' ! r))"
proof (intro conjI)
  from QuickSort_sort_store_correct [OF refl assms]
  obtain ext r where "QuickSort_sort_store h data = Some (h @ ext, r)" "r < length (h @ ext)"
    "(h @ ext) ! r = QuickSort_sort (h ! data)"
    by blast
  moreover have "take (length h) (h @ ext) = h" "(h @ ext) ! data = h ! data"
    using assms by (simp_all add: nth_append)
  ultimately show "\<exists>h' r. QuickSort_sort_store h data = Some (h', r) \<and>
            take (length h) h' = h \<and> h' ! data = h ! data \<and>
            r < length h' \<and> h' ! r = QuickSort_sort (h ! data)"
    by blast
next
  from MergeSort_sort_store_correct [OF refl assms]
  obtain ext r where "MergeSort_sort_store h data = Some (h @ ext, r)" "r < length (h @ ext)"
    "(h @ ext) ! r = MergeSort_sort (h ! data)"
    by blast
  moreover have "take (length h) (h @ ext) = h" "(h @ ext) ! data = h ! data"
    using assms by (simp_all add: nth_append)
  ultimately show "\<exists>h' r. MergeSort_sort_store h data = Some (h', r) \<and>
            take (length h) h' = h \<and> h' ! data = h ! data \<and>
            r < length h' \<and> h' ! r = MergeSort_sort (h ! data)"
    by blast
next
  obtain res where res: "BubbleSort_sort (h ! data) = Inr res"
    using BubbleSort_sort_correct [of "h ! data"] by blast
  then have "BubbleSort_sort_store h data = Inr (h @ [res], length h)"
    using BubbleSort_sort_store_refines [OF assms] by simp
  moreover have "take (length h) (h @ [res]) = h" "(h @ [res]) ! data = h ! data"
    "(h @ [res]) ! length h = res"
    using assms by (simp_all add: nth_append)
  ultimately show "\<exists>h' r. BubbleSort_sort_store h data = Inr (h', r) \<and>
            take (length h) h' = h \<and> h' ! data = h ! data \<and>
            r = length h \<and> r < length h' \<and> BubbleSort_sort (h ! data) = Inr (h' ! r)"
    using res by simp
qed

theorem sorting_leaves_input_unchanged_witness:
  "(0::nat) < length [[3, 1, 2 :: int]] \<and>
   (\<exists>h' r. BubbleSort_sort_store [[3, 1, 2]] 0 = Inr (h', r) \<and> h' ! 0 = [3, 1, 2] \<and> r = 1) \<and>
   (\<exists>h' r. QuickSort_sort_store [[3, 1, 2]] 0 = Some (h', r) \<and> h' ! 0 = [3, 1, 2]) \<and>
   (\<exists>h' r. MergeSort_sort_store [[3, 1, 2]] 0 = Some (h', r) \<and> h' ! 0 = [3, 1, 2])"
  using sorting_leaves_input_unchanged [of 0 "[[3, 1, 2]]"]
  by simp blast

text \<open>
  C3. A \<^verbatim>\<open>PaymentProcessor\<close> or \<^verbatim>\<open>DataSorter\<close> constructed without a strategy, also after
  any number of \<^verbatim>\<open>set_strategy(None)\<close> calls, raises \<^verbatim>\<open>ValueError\<close> from its operation and
  prints nothing. With a strategy set, the operation is the strategy's: the same lines
  printed and the same value returned, and the "no strategy" error is not raised.
\<close>

theorem strategy_context_unconfigured:
  "(set strategies \<subseteq> {None} \<longrightarrow>
      process_payment hash (foldr set_strategy strategies (PaymentProcessor None)) amt
        = ([], Inl (ValueError ''No payment strategy set''))) \<and>
   (set sort_strategies \<subseteq> {None} \<longrightarrow>
      sort_data (foldr DataSorter_set_strategy sort_strategies (DataSorter None)) data
        = Inl (ValueError ''No sorting strategy set'')) \<and>
   process_payment hash (set_strategy (Some s) processor) amt
     = (fst (pay hash s amt), Inr (snd (pay hash s amt))) \<and>
   sort_data (DataSorter_set_strategy (Some sort_strategy) sorter) data
     = SortStrategy_sort sort_strategy data \<and>
   sort_data (DataSorter_set_strategy (Some sort_strategy) sorter) data
     \<noteq> Inl (ValueError ''No sorting strategy set'')"
proof -
  have 1: "set strategies \<subseteq> {None} \<Longrightarrow>
      foldr set_strategy strategies (PaymentProcessor None) = PaymentProcessor None"
    by (induction strategies) (simp_all add: set_strategy_def)
  have 2: "set sort_strategies \<subseteq> {None} \<Longrightarrow>
      foldr DataSorter_set_strategy sort_strategies (DataSorter None) = DataSorter None"
    by (induction sort_strategies) (simp_all add: DataSorter_set_strategy_def)
  have 3: "SortStrategy_sort sort_strategy data \<noteq> Inl (ValueError ''No sorting strategy set'')"
    using BubbleSort_sort_correct [of data] by (cases sort_strategy) auto
  show ?thesis
    using 1 2 3
    by (simp add: process_payment_def sort_data_def set_strategy_def DataSorter_set_strategy_def)
qed

theorem strategy_context_unconfigured_witness:
  "set [None, None :: PaymentStrategy option] \<subseteq> {None} \<and>
   process_payment (\<lambda>s. 0) (foldr set_strategy [None, None] (PaymentProcessor None)) 99.99
     = ([], Inl (ValueError ''No payment strategy set'')) \<and>
   set ([] :: SortStrategy option list) \<subseteq> {None} \<and>
   sort_data (foldr DataSorter_set_strategy [] (DataSorter None)) [3, 1, 2]
     = Inl (ValueError ''No sorting strategy set'') \<and>
   process_payment (\<lambda>s. 0) (set_strategy (Some (PayPalPayment ''customer@example.com''))
       (PaymentProcessor None)) 149.50
     = ([ProcessingPayPal 149.50, PayPalAccount ''customer@example.com''],
        Inr [(''status'', Str ''success''), (''method'', Str ''paypal''), (''amount'', Num 149.50),
             (''transaction_id'', Str ''PP-0'')])"
  using strategy_context_unconfigured [where strategies = "[None, None]" and hash = "\<lambda>s. 0"
      and amt = "99.99" and sort_strategies = "[]" and data = "[3, 1, 2]"]
    strategy_context_unconfigured [where strategies = "[]" and hash = "\<lambda>s. 0"
      and amt = "149.50" and sort_strategies = "[]" and data = "[3, 1, 2]"
      and s = "PayPalPayment ''customer@example.com''" and processor = "PaymentProcessor None"]
  by (simp add: str_int_def str_nat.simps)


subsection \<open>Decorator\<close>




lemma exponent_bounds:
  assumes "0 < a"
  shows "2 powi exponent a \<le> a \<and> a < 2 powi (exponent a + 1)"
proof -
  obtain n d where q: "quotient_of a = (n, d)" by (cases "quotient_of a")
  have d: "0 < d" using quotient_of_denom_pos [OF q] .
  have a: "a = of_int n / of_int d" using quotient_of_div [OF q] .
  have n: "0 < n" using assms d by (simp add: a zero_less_divide_iff)
  define bn bd where "bn = bitlen n" and "bd = bitlen d"
  have bn: "(2::int) ^ nat (bn - 1) \<le> n" "n < 2 ^ nat bn"
    and bd: "(2::int) ^ nat (bd - 1) \<le> d" "d < 2 ^ nat bd"
    using bitlen_bounds [OF n] bitlen_bounds [OF d] by (simp_all add: bn_def bd_def)
  have pos: "1 \<le> bn" "1 \<le> bd"
    using n d by (simp_all add: bn_def bd_def bitlen_alt_def)
  have rn: "(2::rat) powi (bn - 1) \<le> of_int n" "of_int n < (2::rat) powi bn"
  proof -
    have "(of_int ((2::int) ^ nat (bn - 1)) :: rat) \<le> of_int n" using bn(1) by (simp only: of_int_le_iff)
    then show "(2::rat) powi (bn - 1) \<le> of_int n" using pos by (simp add: power_int_def)
    have "(of_int n :: rat) < of_int ((2::int) ^ nat bn)" using bn(2) by (simp only: of_int_less_iff)
    then show "of_int n < (2::rat) powi bn" using pos by (simp add: power_int_def)
  qed
  have rd: "(2::rat) powi (bd - 1) \<le> of_int d" "of_int d < (2::rat) powi bd"
  proof -
    have "(of_int ((2::int) ^ nat (bd - 1)) :: rat) \<le> of_int d" using bd(1) by (simp only: of_int_le_iff)
    then show "(2::rat) powi (bd - 1) \<le> of_int d" using pos by (simp add: power_int_def)
    have "(of_int d :: rat) < of_int ((2::int) ^ nat bd)" using bd(2) by (simp only: of_int_less_iff)
    then show "of_int d < (2::rat) powi bd" using pos by (simp add: power_int_def)
  qed
  have dpos: "(0::rat) < of_int d" "(0::rat) < of_int n" using d n by simp_all
  have low: "(2::rat) powi (bn - bd - 1) \<le> a"
  proof -
    have "(2::rat) powi (bn - bd - 1) = 2 powi (bn - 1) / 2 powi bd"
      by (simp add: power_int_diff [symmetric] algebra_simps)
    also have "\<dots> \<le> of_int n / 2 powi bd"
      using rn(1) by (simp add: divide_right_mono)
    also have "\<dots> \<le> of_int n / of_int d"
      using rd(2) dpos by (intro divide_left_mono) (simp_all add: less_imp_le)
    finally show ?thesis by (simp add: a)
  qed
  have high: "a < (2::rat) powi (bn - bd + 1)"
  proof -
    have "a = of_int n / of_int d" by (rule a)
    also have "\<dots> < 2 powi bn / of_int d"
      using rn(2) dpos by (simp add: divide_strict_right_mono)
    also have "\<dots> \<le> 2 powi bn / 2 powi (bd - 1)"
      using rd(1) dpos by (intro divide_left_mono) (simp_all add: zero_less_mult_iff)
    also have "\<dots> = (2::rat) powi (bn - bd + 1)"
      by (simp add: power_int_diff [symmetric] algebra_simps)
    finally show ?thesis .
  qed
  show ?thesis
    using low high by (auto simp: exponent_def q bn_def bd_def Let_def not_le)
qed

lemma exponent_eqI:
  assumes "0 < a" and "2 powi e \<le> a" and "a < 2 powi (e + 1)"
  shows "exponent a = e"
proof -
  note b = exponent_bounds [OF assms(1)]
  have "(2::rat) powi e < 2 powi (exponent a + 1)" using assms(2) b by linarith
  then have "e < exponent a + 1"
    by (metis linorder_not_less one_less_numeral_iff power_int_increasing less_imp_le semiring_norm(76))
  moreover have "(2::rat) powi exponent a < 2 powi (e + 1)" using assms(3) b by linarith
  then have "exponent a < e + 1"
    by (metis linorder_not_less one_less_numeral_iff power_int_increasing less_imp_le semiring_norm(76))
  ultimately show ?thesis by simp
qed




lemma round_binary64_pos:
  assumes "0 < a" and "2 powi e \<le> a" and "a < 2 powi (e + 1)" and "- 1022 \<le> e"
  shows "round_binary64 a
           = of_int (round_half_even (a / 2 powi (e - 52))) * 2 powi (e - 52)"
  using assms exponent_eqI [OF assms(1-3)]
  by (simp add: round_binary64_def ulp_def max_def)

lemma round_half_even_int: "round_half_even (of_int i) = i"
  by (simp add: round_half_even_def Let_def)

lemma round_half_even_divide:
  assumes "0 < d"
  shows "round_half_even (of_int n / of_int d) =
           (if 2 * (n mod d) < d then n div d
            else if 2 * (n mod d) > d then n div d + 1
            else if even (n div d) then n div d else n div d + 1)"
proof -
  have f: "\<lfloor>(of_int n / of_int d :: rat)\<rfloor> = n div d"
    by (rule floor_divide_of_int_eq)
  have "(of_int n :: rat) = of_int (d * (n div d) + n mod d)" by simp
  then have n: "(of_int n :: rat) = of_int d * of_int (n div d) + of_int (n mod d)"
    by (simp only: of_int_add of_int_mult)
  have dpos: "(0::rat) < of_int d" using assms by simp
  have r: "(of_int n / of_int d :: rat) - of_int (n div d) = of_int (n mod d) / of_int d"
    using dpos by (subst n) (simp add: field_simps)
  have lt: "((of_int (n mod d) / of_int d :: rat) < 1 / 2) = (2 * (n mod d) < d)"
  proof -
    have "((of_int (n mod d) / of_int d :: rat) < 1 / 2) = ((of_int (2 * (n mod d)) :: rat) < of_int d)"
      using dpos by (simp add: field_simps)
    then show ?thesis by (simp only: of_int_less_iff)
  qed
  have gt: "((of_int (n mod d) / of_int d :: rat) > 1 / 2) = (2 * (n mod d) > d)"
  proof -
    have "((of_int (n mod d) / of_int d :: rat) > 1 / 2) = ((of_int (2 * (n mod d)) :: rat) > of_int d)"
      using dpos by (simp add: field_simps)
    then show ?thesis by (simp only: of_int_less_iff)
  qed
  show ?thesis
    unfolding round_half_even_def Let_def f r lt gt by simp
qed

lemma round_binary64_eval:
  assumes "0 < a" and "2 powi e \<le> a" and "a < 2 powi (e + 1)" and "- 1022 \<le> e"
    and "a / 2 powi (e - 52) = of_int n / of_int d" and "0 < d"
  shows "round_binary64 a =
           of_int (if 2 * (n mod d) < d then n div d
                   else if 2 * (n mod d) > d then n div d + 1
                   else if even (n div d) then n div d else n div d + 1) * 2 powi (e - 52)"
  unfolding round_binary64_pos [OF assms(1-4)] assms(5) round_half_even_divide [OF assms(6)] ..

lemma float_literals:
  "to_float 2.50 = Fin (5 / 2)"
  "to_float 0.50 = Fin (1 / 2)"
  "to_float 0.75 = Fin (3 / 4)"
  "to_float 0.60 = Fin (5404319552844595 / 2 ^ 53)"
  "to_float 0.10 = Fin (7205759403792794 / 2 ^ 56)"
proof -
  have "round_binary64 (5 / 2) = 5 / 2"
    using round_binary64_eval [of "5 / 2" 1 "5 * 2 ^ 50" 1] by simp
  then show "to_float 2.50 = Fin (5 / 2)" by (simp add: to_float_def)
  have "round_binary64 (1 / 2) = 1 / 2"
    using round_binary64_eval [of "1 / 2" "- 1" "2 ^ 52" 1] by simp
  then show "to_float 0.50 = Fin (1 / 2)" by (simp add: to_float_def)
  have "round_binary64 (3 / 4) = 3 / 4"
    using round_binary64_eval [of "3 / 4" "- 1" "3 * 2 ^ 51" 1] by simp
  then show "to_float 0.75 = Fin (3 / 4)" by (simp add: to_float_def)
  have "round_binary64 (3 / 5) = 5404319552844595 / 2 ^ 53"
    using round_binary64_eval [of "3 / 5" "- 1" "3 * 2 ^ 53" 5] by simp
  then show "to_float 0.60 = Fin (5404319552844595 / 2 ^ 53)" by (simp add: to_float_def)
  have "round_binary64 (1 / 10) = 7205759403792794 / 2 ^ 56"
    using round_binary64_eval [of "1 / 10" "- 4" "2 ^ 56" 10] by simp
  then show "to_float 0.10 = Fin (7205759403792794 / 2 ^ 56)" by (simp add: to_float_def)
qed








text \<open>
  On the order of C5 the floating-point cost is the double that the literal \<^verbatim>\<open>3.20\<close>
  denotes, as the exact cost is 3.20.
\<close>

lemma espresso_milk_sugar2_float:
  "get_cost_float (SugarDecorator (MilkDecorator Espresso) 2) = Inr (to_float 3.20)"
proof -
  have "round_binary64 (5 / 2 + 1 / 2) = 3"
    using round_binary64_eval [of "5 / 2 + 1 / 2" 1 "3 * 2 ^ 51" 1] by simp
  then have milk: "to_float (5 / 2 + 1 / 2) = Fin 3" by (simp add: to_float_def)
  have "round_binary64 2 = 2"
    using round_binary64_eval [of 2 1 "2 ^ 52" 1] by simp
  then have two: "float_of_int 2 = Inr (Fin 2)" by (simp add: float_of_int_def)
  have "round_binary64 (7205759403792794 / 2 ^ 56 * 2) = 7205759403792794 / 2 ^ 55"
    using round_binary64_eval [of "7205759403792794 / 2 ^ 56 * 2" "- 3" 7205759403792794 1]
    by simp
  then have sugar: "to_float (7205759403792794 / 2 ^ 56 * 2) = Fin (7205759403792794 / 2 ^ 55)"
    by (simp add: to_float_def)
  have "round_binary64 (3 + 7205759403792794 / 2 ^ 55) = 3602879701896397 / 2 ^ 50"
    using round_binary64_eval [of "3 + 7205759403792794 / 2 ^ 55" 1
        "3 * 2 ^ 55 + 7205759403792794" "2 ^ 4"] by simp
  then have total: "to_float (3 + 7205759403792794 / 2 ^ 55) = Fin (3602879701896397 / 2 ^ 50)"
    by (simp add: to_float_def)
  have "round_binary64 (16 / 5) = 3602879701896397 / 2 ^ 50"
    using round_binary64_eval [of "16 / 5" 1 "2 ^ 55" 5] by simp
  then have lit: "to_float 3.20 = Fin (3602879701896397 / 2 ^ 50)"
    by (simp add: to_float_def)
  show ?thesis
    unfolding get_cost_float.simps float_literals lit
    by (simp only: sum.case float_add.simps float_mul.simps milk two sugar total)
qed









subsection \<open>Composite\<close>

lemma foldl_add_get_size:
  "foldl (\<lambda>total child. total + get_size child) acc children
     = acc + sum_list (map get_size children)"
  by (induction children arbitrary: acc) simp_all

lemma get_size_Folder: "get_size (Folder name children) = sum_list (map get_size children)"
  by (simp add: foldl_add_get_size)

lemma get_size_file_sizes: "get_size item = sum_list (file_sizes item)"
proof (induction item)
  case (File name sz)
  show ?case by simp
next
  case (Folder name children)
  have "sum_list (map get_size children) = sum_list (map (\<lambda>c. sum_list (file_sizes c)) children)"
    using Folder.IH by (induction children) simp_all
  also have "\<dots> = sum_list (concat (map file_sizes children))"
    by (induction children) simp_all
  finally show ?case
    by (simp only: get_size_Folder file_sizes.simps)
qed

text \<open>
  C9. The size of a file is its stored size. The size of a folder is the sum of the
  sizes of its direct children, at any depth of nesting, and so the sum of the sizes of
  all files below it. Nothing is cached: after \<^verbatim>\<open>add\<close> the size is that of the
  children the folder then has.
\<close>

theorem composite_get_size:
  "get_size (File name sz) = sz \<and>
   get_size (Folder name children) = sum_list (map get_size children) \<and>
   get_size item = sum_list (file_sizes item) \<and>
   (case add (Folder name children) item of
      Inr folder \<Rightarrow> get_size folder = get_size (Folder name children) + get_size item
    | Inl e \<Rightarrow> False)"
  using get_size_file_sizes [of item]
  by (simp add: get_size_Folder del: get_size.simps(2))

theorem composite_get_size_witness:
  "get_size (Folder ''root'' [Folder ''Documents'' [File ''resume.pdf'' 245760,
      File ''cover_letter.docx'' 15360], File ''notes.txt'' 1024]) = 262144"
  using composite_get_size [where name = "''root''" and children =
      "[Folder ''Documents'' [File ''resume.pdf'' 245760, File ''cover_letter.docx'' 15360],
        File ''notes.txt'' 1024]" and item = "File ''x'' 0" and sz = 0]
    composite_get_size [where name = "''Documents''" and children =
      "[File ''resume.pdf'' 245760, File ''cover_letter.docx'' 15360]"
      and item = "File ''x'' 0" and sz = 0]
  by (simp del: get_size.simps(2))


subsection \<open>Observer\<close>

lemma distinct_observers_call: "distinct (observers s) \<Longrightarrow> distinct (observers (call s c))"
  by (cases c) (auto simp: attach_def detach_def set_price_def notify_def Let_def)

lemma distinct_observers_foldl:
  "distinct (observers s) \<Longrightarrow> distinct (observers (foldl call s calls))"
  by (induction calls arbitrary: s) (simp_all add: distinct_observers_call)

lemma distinct_observers_after_calls:
  "distinct (observers (after_calls stock_symbol initial_price calls))"
  unfolding after_calls_def
  by (rule distinct_observers_foldl) (simp add: StockPrice_init_def)

lemma receivers_map_Update:
  "receivers (map (\<lambda>observer. Update observer stock_symbol p change) obs) = obs"
  by (induction obs) simp_all

lemma delivered_notify: "delivered s (notify s) = observers s"
  by (simp add: delivered_def notify_def Let_def receivers_map_Update)

lemma count_list_distinct:
  "distinct xs \<Longrightarrow> count_list xs x = (if x \<in> set xs then 1 else 0)"
  by (induction xs) auto

lemma filter_neq_absent: "x \<notin> set xs \<Longrightarrow> filter (\<lambda>y. y \<noteq> x) xs = xs"
  by (induction xs) auto

lemma remove1_distinct_filter:
  "distinct xs \<Longrightarrow> remove1 x xs = filter (\<lambda>y. y \<noteq> x) xs"
  by (induction xs) (auto simp: filter_neq_absent)

lemma observers_attach:
  "observers (attach ob s) = (if ob \<in> set (observers s) then observers s else observers s @ [ob])"
  by (simp add: attach_def)

lemma observers_detach: "observers (detach ob s) = remove1 ob (observers s)"
  by (simp add: detach_def remove1_idem)

text \<open>
  C7. Let \<open>s\<close> be a subject after any sequence of calls since its construction.
  Attaching an observer twice and notifying calls it exactly once, and the second
  \<^verbatim>\<open>attach\<close> changes nothing. A notify calls the attached observers in the order in
  which they were attached (a new observer is appended). After \<^verbatim>\<open>detach\<close>, notify calls
  the remaining observers in that order and not the detached one; detaching an observer
  that is not attached leaves the subject as it was and prints nothing.
\<close>

theorem observer_attach_detach_notify:
  fixes stock_symbol :: string and initial_price :: amount and calls :: "subject_call list"
  defines "s \<equiv> after_calls stock_symbol initial_price calls"
  shows
    "count_list (delivered (attach ob (attach ob s)) (notify (attach ob (attach ob s)))) ob = 1 \<and>
     attach ob (attach ob s) = attach ob s \<and>
     delivered s (notify s) = observers s \<and>
     observers (attach ob s) = (if ob \<in> set (observers s) then observers s else observers s @ [ob]) \<and>
     delivered (detach ob s) (notify (detach ob s)) = filter (\<lambda>x. x \<noteq> ob) (observers s) \<and>
     ob \<notin> set (delivered (detach ob s) (notify (detach ob s))) \<and>
     (ob \<notin> set (observers s) \<longrightarrow> detach ob s = s)"
proof -
  have d: "distinct (observers s)"
    unfolding s_def by (rule distinct_observers_after_calls)
  have 1: "count_list (delivered (attach ob (attach ob s)) (notify (attach ob (attach ob s)))) ob = 1"
    using d by (simp add: delivered_notify observers_attach count_list_distinct)
  have 2: "attach ob (attach ob s) = attach ob s"
    by (simp add: attach_def)
  have 3: "delivered (detach ob s) (notify (detach ob s)) = filter (\<lambda>x. x \<noteq> ob) (observers s)"
    using d by (simp add: delivered_notify observers_detach remove1_distinct_filter)
  have 4: "ob \<notin> set (delivered (detach ob s) (notify (detach ob s)))"
    unfolding 3 by simp
  have 5: "ob \<notin> set (observers s) \<longrightarrow> detach ob s = s"
    by (simp add: detach_def)
  from 1 2 3 4 5 show ?thesis
    by (simp only: delivered_notify observers_attach simp_thms)
qed

theorem observer_attach_detach_notify_witness:
  "Analyst 3 \<notin> set (observers (after_calls ''AAPL'' 150 [Attach (Trader 1), Attach (Trader 2)])) \<and>
   detach (Analyst 3) (after_calls ''AAPL'' 150 [Attach (Trader 1), Attach (Trader 2)])
     = after_calls ''AAPL'' 150 [Attach (Trader 1), Attach (Trader 2)] \<and>
   delivered (detach (Trader 1) (after_calls ''AAPL'' 150 [Attach (Trader 1), Attach (Trader 2)]))
      (notify (detach (Trader 1) (after_calls ''AAPL'' 150 [Attach (Trader 1), Attach (Trader 2)])))
     = [Trader 2]"
  using observer_attach_detach_notify [of "Analyst 3" "''AAPL''" 150 "[Attach (Trader 1), Attach (Trader 2)]"]
    observer_attach_detach_notify [of "Trader 1" "''AAPL''" 150 "[Attach (Trader 1), Attach (Trader 2)]"]
  by (simp add: after_calls_def StockPrice_init_def attach_def)


subsection \<open>Adapter\<close>

lemma lower_char_cases:
  "lower_char c = l \<Longrightarrow> l \<in> set ''mpvlc34'' \<Longrightarrow>
     c = l \<or> (c, l) \<in> set (zip ''MPVLC'' ''mpvlc'')"
  unfolding lower_char_def
  by (auto split: if_splits)

lemma lower_mp3: "(lower t = ''mp3'') = (t \<in> {''mp3'', ''mP3'', ''Mp3'', ''MP3''})"
proof
  assume "lower t = ''mp3''"
  then obtain a b c where t: "t = [a, b, c]" and
    "lower_char a = CHR ''m''" "lower_char b = CHR ''p''" "lower_char c = CHR ''3''"
    by (auto simp: lower_def map_eq_Cons_conv)
  then show "t \<in> {''mp3'', ''mP3'', ''Mp3'', ''MP3''}"
    using lower_char_cases [of a "CHR ''m''"] lower_char_cases [of b "CHR ''p''"]
      lower_char_cases [of c "CHR ''3''"]
    by auto
next
  assume "t \<in> {''mp3'', ''mP3'', ''Mp3'', ''MP3''}"
  then show "lower t = ''mp3''"
    by (auto simp: lower_def lower_char_def)
qed

lemma lower_mp4: "(lower t = ''mp4'') = (t \<in> {''mp4'', ''mP4'', ''Mp4'', ''MP4''})"
proof
  assume "lower t = ''mp4''"
  then obtain a b c where t: "t = [a, b, c]" and
    "lower_char a = CHR ''m''" "lower_char b = CHR ''p''" "lower_char c = CHR ''4''"
    by (auto simp: lower_def map_eq_Cons_conv)
  then show "t \<in> {''mp4'', ''mP4'', ''Mp4'', ''MP4''}"
    using lower_char_cases [of a "CHR ''m''"] lower_char_cases [of b "CHR ''p''"]
      lower_char_cases [of c "CHR ''4''"]
    by auto
next
  assume "t \<in> {''mp4'', ''mP4'', ''Mp4'', ''MP4''}"
  then show "lower t = ''mp4''"
    by (auto simp: lower_def lower_char_def)
qed

lemma lower_vlc:
  "(lower t = ''vlc'') =
     (t \<in> {''vlc'', ''vlC'', ''vLc'', ''vLC'', ''Vlc'', ''VlC'', ''VLc'', ''VLC''})"
proof
  assume "lower t = ''vlc''"
  then obtain a b c where t: "t = [a, b, c]" and
    "lower_char a = CHR ''v''" "lower_char b = CHR ''l''" "lower_char c = CHR ''c''"
    by (auto simp: lower_def map_eq_Cons_conv)
  then show "t \<in> {''vlc'', ''vlC'', ''vLc'', ''vLC'', ''Vlc'', ''VlC'', ''VLc'', ''VLC''}"
    using lower_char_cases [of a "CHR ''v''"] lower_char_cases [of b "CHR ''l''"]
      lower_char_cases [of c "CHR ''c''"]
    by auto
next
  assume "t \<in> {''vlc'', ''vlC'', ''vLc'', ''vLC'', ''Vlc'', ''VlC'', ''VLc'', ''VLC''}"
  then show "lower t = ''vlc''"
    by (auto simp: lower_def lower_char_def)
qed

text \<open>
  C8. A tag that is none of "mp3", "mp4", "vlc" in any mix of upper and lower case makes
  \<^verbatim>\<open>AudioPlayer.play\<close> raise \<^verbatim>\<open>ValueError("Invalid media type: <tag>")\<close>, the tag as it
  was passed, with nothing played. Each of the three tags, in any mix of cases, is played
  by its own adaptee and by no other, and the adapter in between does not raise.
\<close>

theorem audio_player_dispatch:
  "(audio_type \<notin> {''mp3'', ''mP3'', ''Mp3'', ''MP3''} \<union> {''mp4'', ''mP4'', ''Mp4'', ''MP4''}
        \<union> {''vlc'', ''vlC'', ''vLc'', ''vLC'', ''Vlc'', ''VlC'', ''VLc'', ''VLC''} \<longrightarrow>
      AudioPlayer_play audio_type file_name
        = ([], Inl (ValueError (''Invalid media type: '' @ audio_type)))) \<and>
   (audio_type \<in> {''mp3'', ''mP3'', ''Mp3'', ''MP3''} \<longrightarrow>
      AudioPlayer_play audio_type file_name
        = ([PlayingMp3 file_name], Inr (''MP3: '' @ file_name))) \<and>
   (audio_type \<in> {''mp4'', ''mP4'', ''Mp4'', ''MP4''} \<longrightarrow>
      AudioPlayer_play audio_type file_name
        = ([PlayingMp4 file_name], Inr (''MP4: '' @ file_name))) \<and>
   (audio_type \<in> {''vlc'', ''vlC'', ''vLc'', ''vLC'', ''Vlc'', ''VlC'', ''VLc'', ''VLC''} \<longrightarrow>
      AudioPlayer_play audio_type file_name
        = ([PlayingVlc file_name], Inr (''VLC: '' @ file_name)))"
proof -
  have "lower audio_type = ''mp3'' \<Longrightarrow> lower audio_type \<noteq> ''mp4''"
    and "lower audio_type = ''mp3'' \<Longrightarrow> lower audio_type \<noteq> ''vlc''"
    and "lower audio_type = ''mp4'' \<Longrightarrow> lower audio_type \<noteq> ''vlc''"
    by simp_all
  then show ?thesis
    unfolding Un_iff de_Morgan_disj lower_mp3 [symmetric] lower_mp4 [symmetric] lower_vlc [symmetric]
    by (auto simp: AudioPlayer_play_def Mp3Adapter_play_def Mp4Adapter_play_def
        VlcAdapter_play_def play_mp3_def play_mp4_def play_vlc_def)
qed

theorem audio_player_dispatch_witness:
  "AudioPlayer_play ''avi'' ''video.avi'' = ([], Inl (ValueError ''Invalid media type: avi'')) \<and>
   AudioPlayer_play ''MP3'' ''song.mp3'' = ([PlayingMp3 ''song.mp3''], Inr ''MP3: song.mp3'') \<and>
   AudioPlayer_play ''Mp4'' ''movie.mp4'' = ([PlayingMp4 ''movie.mp4''], Inr ''MP4: movie.mp4'') \<and>
   AudioPlayer_play ''vlc'' ''video.vlc'' = ([PlayingVlc ''video.vlc''], Inr ''VLC: video.vlc'')"
  using audio_player_dispatch [of "''avi''" "''video.avi''"]
    audio_player_dispatch [of "''MP3''" "''song.mp3''"]
    audio_player_dispatch [of "''Mp4''" "''movie.mp4''"]
    audio_player_dispatch [of "''vlc''" "''video.vlc''"]
  by simp


subsection \<open>State\<close>

lemmas vending_defs =
  insert_money_def eject_money_def select_product_def dispense_def
  NoMoney_insert_money_def NoMoney_eject_money_def NoMoney_select_product_def NoMoney_dispense_def
  HasMoney_insert_money_def HasMoney_eject_money_def HasMoney_select_product_def
  HasMoney_dispense_def Sold_dispense_def
  get_product_price_def has_product_def remove_product_def
  print_def set_state_def add_money_def set_money_def set_selected_product_def

lemma has_product_price: "has_product m product \<Longrightarrow> get_product_price m product \<noteq> None"
  by (auto simp: has_product_def get_product_price_def split: option.splits)

text \<open>
  C4. In \<^verbatim>\<open>HasMoneyState\<close>, selecting a product that is in stock and costs more than the
  money inserted changes no field of the machine: the state, the money, the selection and
  the products stay as they are, and the one line printed carries the price minus the
  money inserted.
\<close>

theorem insufficient_funds_frame:
  assumes "state m = HasMoneyState"
    and "products m product = Some info"
    and "info_stock info > 0"
    and "info_price info > money m"
  shows "select_product product m
           = m\<lparr>console := console m @ [InsufficientFunds (info_price info - money m)]\<rparr>"
  using assms
  by (simp add: select_product_def HasMoney_select_product_def get_product_price_def print_def)

theorem insufficient_funds_frame_witness:
  "state (insert_money 1.00 VendingMachine_init) = HasMoneyState \<and>
   products (insert_money 1.00 VendingMachine_init) ''Chips''
     = Some \<lparr>info_price = 2.00, info_stock = 4\<rparr> \<and>
   select_product ''Chips'' (insert_money 1.00 VendingMachine_init)
     = (insert_money 1.00 VendingMachine_init)\<lparr>console := [Inserted 1.00, InsufficientFunds 1.00]\<rparr>"
  using insufficient_funds_frame [of "insert_money 1.00 VendingMachine_init" "''Chips''"
      "\<lparr>info_price = 2.00, info_stock = 4\<rparr>"]
  by (simp add: vending_defs VendingMachine_init_def)

text \<open>
  C2 fails on the code. With 1.00 inserted, selecting the out-of-stock "Candy" (price
  1.00) and dispensing prints the out-of-stock line and leaves the stock at 0, but the
  machine goes to \<^verbatim>\<open>NoMoneyState\<close> with the 1.00 still in \<^verbatim>\<open>_money\<close> and "Candy" still
  selected; \<^verbatim>\<open>eject_money\<close> then prints "No money to eject" and returns nothing.
\<close>

theorem out_of_stock_money_stranded:
  "dispense (select_product ''Candy'' (insert_money 1.00 VendingMachine_init))
     = VendingMachine_init\<lparr>state := NoMoneyState, money := 1.00,
         selected_product := Some ''Candy'',
         console := [Inserted 1.00, Selected ''Candy'' 1.00, OutOfStock (Some ''Candy'')]\<rparr> \<and>
   eject_money (dispense (select_product ''Candy'' (insert_money 1.00 VendingMachine_init)))
     = VendingMachine_init\<lparr>state := NoMoneyState, money := 1.00,
         selected_product := Some ''Candy'',
         console := [Inserted 1.00, Selected ''Candy'' 1.00, OutOfStock (Some ''Candy''),
                     NoMoneyToEject]\<rparr>"
  by (simp add: vending_defs VendingMachine_init_def Let_def)

text \<open>
  The stranded 1.00 is counted with the next coin: step 7 of the example's own run,
  announced as the "insufficient funds scenario" (1.00 inserted for the 2.00 "Chips"),
  selects the chips.
\<close>

lemma stranded_money_pays_next_purchase:
  "select_product ''Chips'' (insert_money 1.00
      (dispense (select_product ''Candy'' (insert_money 1.00 VendingMachine_init))))
     = VendingMachine_init\<lparr>state := SoldState, money := 2.00,
         selected_product := Some ''Chips'',
         console := [Inserted 1.00, Selected ''Candy'' 1.00, OutOfStock (Some ''Candy''),
                     Inserted 1.00, Selected ''Chips'' 2.00]\<rparr>"
  by (simp add: vending_defs VendingMachine_init_def Let_def)

end
